theory Spec2Isabelle
  imports Main "HOL-Library.Word"
begin

unbundle bit_operations_syntax

text \<open>
  A shallow embedding of the publish path of the RTMP-to-HLS server: the FLV tag writer
  (package \<^verbatim>\<open>flv\<close>), the pattern authorizer (package \<^verbatim>\<open>auth\<close>) and the stream
  manager with its per-stream process (package \<^verbatim>\<open>stream\<close>). Definitions keep the names
  of the Go functions they embed. Go's \<^verbatim>\<open>error\<close> results are values: \<open>None\<close> is
  \<^verbatim>\<open>nil\<close>. Calls into the operating system and into the Go standard library are either
  parameters of the model or small models of the library's documented behaviour; each
  such place says so.
\<close>

section \<open>FLV tag writer (package flv, writer.go)\<close>

type_synonym u8 = "8 word"
type_synonym u32 = "32 word"

text \<open>
  The writer holds an \<^verbatim>\<open>io.Writer\<close>, an interface. Its one method
  \<^verbatim>\<open>Write(p []byte) (n int, err error)\<close> is modelled as a function from the state of
  the underlying sink and the bytes to the sink's next state and the error; a write that
  fails may still have changed the sink. The sink itself (for a stream, the pipe into the
  transcoder) lives outside the \<^verbatim>\<open>Writer\<close> struct and is threaded through every
  call, so that two writers made over one sink act on the same state.
\<close>

datatype io_error = IOError nat

type_synonym 's io_Writer = "'s \<Rightarrow> u8 list \<Rightarrow> 's \<times> io_error option"

text \<open>
  \<^verbatim>\<open>type Writer struct { writer io.Writer; writeMutex sync.Mutex; headerOnce sync.Once }\<close>.
  The \<^verbatim>\<open>sync.Once\<close> is the flag that says whether its function has run. The mutex
  serialises whole calls of \<^verbatim>\<open>WriteTag\<close>; in this sequential model every call is
  already atomic, so it has no field.
\<close>

record 's Writer =
  writer :: "'s io_Writer"
  headerOnce :: bool

definition NewWriter :: "'s io_Writer \<Rightarrow> 's Writer" where
  "NewWriter wr = \<lparr> writer = wr, headerOnce = False \<rparr>"

text \<open>The 13 header bytes: \<^verbatim>\<open>'F','L','V',0x01,0x05,0,0,0,0x09,0,0,0,0\<close>.\<close>

definition flv_header :: "u8 list" where
  "flv_header = [0x46, 0x4C, 0x56, 0x01, 0x05, 0x00, 0x00, 0x00, 0x09, 0x00, 0x00, 0x00, 0x00]"

text \<open>
  \<^verbatim>\<open>WriteHeader\<close>: \<^verbatim>\<open>headerOnce.Do\<close> runs the write only while the flag is unset and
  sets it; the result of the write (\<^verbatim>\<open>_, _ = w.writer.Write(header)\<close>) is dropped.
\<close>

definition WriteHeader :: "'s Writer \<Rightarrow> 's \<Rightarrow> 's Writer \<times> 's" where
  "WriteHeader w s =
     (if headerOnce w then (w, s)
      else (w\<lparr>headerOnce := True\<rparr>, fst (writer w s flv_header)))"

text \<open>
  \<^verbatim>\<open>makeFLVTagHeader\<close>: \<^verbatim>\<open>byte(x >> n)\<close> is the shift followed by the conversion
  that keeps the low 8 bits.
\<close>

definition makeFLVTagHeader :: "u8 \<Rightarrow> u32 \<Rightarrow> u32 \<Rightarrow> u8 list" where
  "makeFLVTagHeader tagType dataSize timestamp =
     [tagType,
      ucast (drop_bit 16 dataSize), ucast (drop_bit 8 dataSize), ucast dataSize,
      ucast (drop_bit 16 timestamp), ucast (drop_bit 8 timestamp), ucast timestamp,
      ucast (drop_bit 24 timestamp),
      0, 0, 0]"

text \<open>\<^verbatim>\<open>binary.BigEndian.PutUint32\<close> into a fresh 4-byte slice (standard library).\<close>

definition BigEndian_PutUint32 :: "u32 \<Rightarrow> u8 list" where
  "BigEndian_PutUint32 v =
     [ucast (drop_bit 24 v), ucast (drop_bit 16 v), ucast (drop_bit 8 v), ucast v]"

text \<open>
  \<^verbatim>\<open>WriteTag\<close>. \<^verbatim>\<open>uint32(len(data))\<close> keeps the low 32 bits of the length, and
  \<^verbatim>\<open>dataSize+11\<close> is \<^verbatim>\<open>uint32\<close> addition, which wraps. The three writes are issued
  in order and the first error ends the call.
\<close>

definition WriteTag :: "'s Writer \<Rightarrow> u8 \<Rightarrow> u32 \<Rightarrow> u8 list \<Rightarrow> 's \<Rightarrow> 's \<times> io_error option" where
  "WriteTag w tagType timestamp data s =
     (let dataSize = (of_nat (length data) :: u32);
          tagHeader = makeFLVTagHeader tagType dataSize timestamp
      in case writer w s tagHeader of
           (s1, Some err) \<Rightarrow> (s1, Some err)
         | (s1, None) \<Rightarrow>
             (case writer w s1 data of
                (s2, Some err) \<Rightarrow> (s2, Some err)
              | (s2, None) \<Rightarrow>
                  (case writer w s2 (BigEndian_PutUint32 (dataSize + 11)) of
                     (s3, Some err) \<Rightarrow> (s3, Some err)
                   | (s3, None) \<Rightarrow> (s3, None))))"

text \<open>
  \<^verbatim>\<open>WriteAudio\<close>, \<^verbatim>\<open>WriteVideo\<close>, \<^verbatim>\<open>WriteScript\<close>: the header call, then the tag
  with type 8, 9 or 18. Each returns the writer (its once-flag may have changed), the sink
  and the error of \<^verbatim>\<open>WriteTag\<close>.
\<close>

definition WriteAudio :: "'s Writer \<Rightarrow> u32 \<Rightarrow> u8 list \<Rightarrow> 's \<Rightarrow> ('s Writer \<times> 's) \<times> io_error option" where
  "WriteAudio w timestamp data s =
     (let (w', s') = WriteHeader w s; (s'', err) = WriteTag w' 8 timestamp data s'
      in ((w', s''), err))"

definition WriteVideo :: "'s Writer \<Rightarrow> u32 \<Rightarrow> u8 list \<Rightarrow> 's \<Rightarrow> ('s Writer \<times> 's) \<times> io_error option" where
  "WriteVideo w timestamp data s =
     (let (w', s') = WriteHeader w s; (s'', err) = WriteTag w' 9 timestamp data s'
      in ((w', s''), err))"

definition WriteScript :: "'s Writer \<Rightarrow> u32 \<Rightarrow> u8 list \<Rightarrow> 's \<Rightarrow> ('s Writer \<times> 's) \<times> io_error option" where
  "WriteScript w timestamp data s =
     (let (w', s') = WriteHeader w s; (s'', err) = WriteTag w' 18 timestamp data s'
      in ((w', s''), err))"

subsection \<open>Sinks\<close>

text \<open>
  An in-memory sink in the manner of \<^verbatim>\<open>bytes.Buffer\<close>: the state is the bytes written
  so far, a write appends and never fails.
\<close>

definition bytes_Buffer_Write :: "u8 list io_Writer" where
  "bytes_Buffer_Write buf p = (buf @ p, None)"

text \<open>
  The part of the \<^verbatim>\<open>io.Writer\<close> contract the layout theorem needs: a write that
  returns no error has written all of \<open>p\<close>, after what the sink held. \<open>contents\<close>
  reads the bytes a sink has received.
\<close>

definition writes_append :: "'s io_Writer \<Rightarrow> ('s \<Rightarrow> u8 list) \<Rightarrow> bool" where
  "writes_append wr contents \<longleftrightarrow>
     (\<forall>s p s'. wr s p = (s', None) \<longrightarrow> contents s' = contents s @ p)"

subsection \<open>Sequences of calls on one writer\<close>

text \<open>
  The calls a connection handler makes on its writer (\<^verbatim>\<open>OnAudio\<close>, \<^verbatim>\<open>OnVideo\<close>,
  \<^verbatim>\<open>OnSetDataFrame\<close>), and the public \<^verbatim>\<open>WriteHeader\<close>. \<open>do_calls\<close> runs a list of
  them in order on a writer and its sink; \<open>tag_of_call\<close> is the byte string of the tag
  that one call hands to the sink.
\<close>

datatype flv_call =
    CallWriteHeader
  | CallWriteAudio u32 "u8 list"
  | CallWriteVideo u32 "u8 list"
  | CallWriteScript u32 "u8 list"

fun do_call :: "flv_call \<Rightarrow> 's Writer \<times> 's \<Rightarrow> 's Writer \<times> 's" where
  "do_call CallWriteHeader (w, s) = WriteHeader w s"
| "do_call (CallWriteAudio t p) (w, s) = fst (WriteAudio w t p s)"
| "do_call (CallWriteVideo t p) (w, s) = fst (WriteVideo w t p s)"
| "do_call (CallWriteScript t p) (w, s) = fst (WriteScript w t p s)"

fun do_calls :: "flv_call list \<Rightarrow> 's Writer \<times> 's \<Rightarrow> 's Writer \<times> 's" where
  "do_calls [] ws = ws"
| "do_calls (c # cs) ws = do_calls cs (do_call c ws)"

fun tag_of_call :: "flv_call \<Rightarrow> u8 list" where
  "tag_of_call CallWriteHeader = []"
| "tag_of_call (CallWriteAudio t p) =
     makeFLVTagHeader 8 (of_nat (length p)) t @ p @ BigEndian_PutUint32 (of_nat (length p) + 11)"
| "tag_of_call (CallWriteVideo t p) =
     makeFLVTagHeader 9 (of_nat (length p)) t @ p @ BigEndian_PutUint32 (of_nat (length p) + 11)"
| "tag_of_call (CallWriteScript t p) =
     makeFLVTagHeader 18 (of_nat (length p)) t @ p @ BigEndian_PutUint32 (of_nat (length p) + 11)"

subsection \<open>The tag layout as the specification words it\<close>

text \<open>
  \<open>spec_tag_bytes\<close> follows the specification's layout, in arithmetic on the numbers
  rather than shifts on words: the kind; the payload length in 3 bytes, big-endian; bits
  16-23, 8-15 and 0-7 of the timestamp and then bits 24-31; three zero bytes; the payload;
  the number 11 + length in 4 bytes, big-endian. \<open>spec_read_tag\<close> is a reader of that
  layout: it returns the kind, the timestamp, the payload, the trailer's value and the
  bytes after the tag.
\<close>

definition spec_tag_bytes :: "u8 \<Rightarrow> u32 \<Rightarrow> u8 list \<Rightarrow> u8 list" where
  "spec_tag_bytes k t p =
     (let N = length p; T = unat t; M = 11 + N in
      [k] @
      [of_nat (N div 65536 mod 256), of_nat (N div 256 mod 256), of_nat (N mod 256)] @
      [of_nat (T div 65536 mod 256), of_nat (T div 256 mod 256), of_nat (T mod 256)] @
      [of_nat (T div 16777216 mod 256)] @
      [0, 0, 0] @
      p @
      [of_nat (M div 16777216 mod 256), of_nat (M div 65536 mod 256),
       of_nat (M div 256 mod 256), of_nat (M mod 256)])"

fun spec_read_tag :: "u8 list \<Rightarrow> (u8 \<times> u32 \<times> u8 list \<times> nat \<times> u8 list) option" where
  "spec_read_tag (k # l2 # l1 # l0 # t2 # t1 # t0 # t3 # z2 # z1 # z0 # rest) =
     (let n = unat l2 * 65536 + unat l1 * 256 + unat l0 in
      if length rest < n + 4 then None
      else (case drop n rest of
              a # b # c # d # rest' \<Rightarrow>
                Some (k,
                      of_nat (unat t3 * 16777216 + unat t2 * 65536 + unat t1 * 256 + unat t0),
                      take n rest,
                      unat a * 16777216 + unat b * 65536 + unat c * 256 + unat d,
                      rest')
            | _ \<Rightarrow> None))"
| "spec_read_tag _ = None"

section \<open>Pattern authorizer (package auth)\<close>

subsection \<open>The authentication rule (authorizer.go)\<close>

text \<open>
  A \<^verbatim>\<open>map[string]string\<close> is a partial function; the \<^verbatim>\<open>nil\<close> map behaves on lookup
  like the empty one. The two errors are the two \<^verbatim>\<open>fmt.Errorf\<close> results.
\<close>

datatype auth_error =
    EmptyPublishingName
  | UsernameMismatch string string

text \<open>\<^verbatim>\<open>Authorizer.ValidateAuthentication\<close>; it does not read the authorizer's patterns.\<close>

definition ValidateAuthentication :: "(string \<rightharpoonup> string) \<Rightarrow> string \<Rightarrow> auth_error option" where
  "ValidateAuthentication vars publishingName =
     (if publishingName = [] then Some EmptyPublishingName
      else (case vars ''username'' of
              Some username \<Rightarrow>
                (if username \<noteq> publishingName then Some (UsernameMismatch username publishingName)
                 else None)
            | None \<Rightarrow> None))"

subsection \<open>Standard library: net/url\<close>

text \<open>
  \<^verbatim>\<open>url.Parse\<close> is not part of the repository. The authorizer takes it as a
  parameter \<open>url_Parse\<close>: a function from the raw target to the parsed URL, or \<open>None\<close>
  where \<^verbatim>\<open>url.Parse\<close> returns an error. Only the \<^verbatim>\<open>Path\<close> field is read. Every
  theorem below that is stated for all targets holds for every such function.
\<close>

record URL =
  Scheme :: string
  Host :: string
  Path :: string

type_synonym url_parser = "string \<Rightarrow> URL option"

text \<open>
  For the examples, what \<^verbatim>\<open>url.Parse\<close> answers on plain targets. The fragment,
  from the first \<^verbatim>\<open>#\<close>, is cut off, and then the query, from the first \<^verbatim>\<open>?\<close>.
  Of what is left, a text \<^verbatim>\<open>scheme://host/path\<close> with a scheme of lower-case letters
  has that scheme, the host up to the next slash and the rest as its path, and a text
  that begins with one slash is its own path. This is what the library does where host,
  path, query and fragment are made of letters, digits, dots, dashes, underscores and
  slashes. The examples use no other target, and no theorem that is stated for all
  targets uses this function.
\<close>

definition is_letter :: "char \<Rightarrow> bool" where
  "is_letter c \<longleftrightarrow> c \<in> set ''abcdefghijklmnopqrstuvwxyzABCDEFGHIJKLMNOPQRSTUVWXYZ''"

definition plain_url_Parse :: url_parser where
  "plain_url_Parse rawURL =
     (let u = takeWhile (\<lambda>c. c \<noteq> CHR ''#'') rawURL;
          scheme = takeWhile is_letter u; rest = dropWhile is_letter u
      in if scheme \<noteq> [] \<and> take 3 rest = ''://''
         then (let rest' = takeWhile (\<lambda>c. c \<noteq> CHR ''?'') (drop 3 rest)
               in Some \<lparr> Scheme = scheme,
                           Host = takeWhile (\<lambda>c. c \<noteq> CHR ''/'') rest',
                           Path = dropWhile (\<lambda>c. c \<noteq> CHR ''/'') rest' \<rparr>)
         else Some \<lparr> Scheme = [], Host = [], Path = takeWhile (\<lambda>c. c \<noteq> CHR ''?'') u \<rparr>)"

subsection \<open>Standard library: regexp\<close>

text \<open>
  The functions of package \<^verbatim>\<open>regexp\<close> that pattern.go calls. A \<open>char\<close> is one byte.

  \<^verbatim>\<open>regexp.QuoteMeta\<close> works on bytes: it puts a backslash before each of the bytes
  \<^verbatim>\<open>\.+*?()|[]{}^$\<close> and copies every other byte.
\<close>

definition backslash :: char where
  "backslash = CHR 0x5C"

definition special :: "char \<Rightarrow> bool" where
  "special c \<longleftrightarrow> c = backslash \<or> c \<in> set ''.+*?()|[]{}^$''"

definition quote_char :: "char \<Rightarrow> string" where
  "quote_char c = (if special c then [backslash, c] else [c])"

definition regexp_QuoteMeta :: "string \<Rightarrow> string" where
  "regexp_QuoteMeta s = concat (map quote_char s)"

text \<open>
  The expression \<^verbatim>\<open>\\{([a-zA-Z0-9_]+)\\}\<close> that pattern.go compiles: a backslash and
  an opening brace, one or more name characters, a backslash and a closing brace.
  \<open>match_placeholder s\<close> is its match at the start of \<open>s\<close>: the matched text and the
  text after it. The repetition is greedy and what follows it is not a name character,
  so the match at a position is the one with the longest name, or none. The expression
  has ASCII bytes only, and in a text read as UTF-8 every ASCII byte begins a character,
  so its matches in any text are found by looking at bytes.
\<close>

definition name_char :: "char \<Rightarrow> bool" where
  "name_char c \<longleftrightarrow>
     c \<in> set ''abcdefghijklmnopqrstuvwxyzABCDEFGHIJKLMNOPQRSTUVWXYZ0123456789_''"

definition match_placeholder :: "string \<Rightarrow> (string \<times> string) option" where
  "match_placeholder s =
     (if take 2 s = [backslash, CHR ''{''] then
        (let name = takeWhile name_char (drop 2 s); rest = dropWhile name_char (drop 2 s)
         in if name \<noteq> [] \<and> take 2 rest = [backslash, CHR ''}'']
            then Some ([backslash, CHR ''{''] @ name @ [backslash, CHR ''}''], drop 2 rest)
            else None)
      else None)"

text \<open>
  \<^verbatim>\<open>Regexp.ReplaceAllStringFunc\<close> for that expression: the text is scanned from the
  left; where the expression matches, the callback's result replaces the match and the
  scan goes on after it; elsewhere one byte is copied. The callback of
  \<^verbatim>\<open>patternToRegex\<close> cuts the name out of the match (\<^verbatim>\<open>m[2 : len(m)-2]\<close>), appends
  it to \<^verbatim>\<open>varNames\<close> and returns the capture group; the result here is the new text
  with the names in the order of the calls.
\<close>

definition placeholder_name :: "string \<Rightarrow> string" where
  "placeholder_name m = drop 2 (take (length m - 2) m)"

definition capture_group :: "string \<Rightarrow> string" where
  "capture_group name = ''(?P<'' @ name @ ''>[^/]+)''"

function ReplaceAllStringFunc :: "string \<Rightarrow> string \<times> string list" where
  "ReplaceAllStringFunc [] = ([], [])"
| "ReplaceAllStringFunc (c # cs) =
     (case match_placeholder (c # cs) of
        Some (m, rest) \<Rightarrow>
          (let name = placeholder_name m; (out, varNames) = ReplaceAllStringFunc rest
           in (capture_group name @ out, name # varNames))
      | None \<Rightarrow>
          (let (out, varNames) = ReplaceAllStringFunc cs in (c # out, varNames)))"
  by pat_completeness auto
termination
proof (relation "measure length")
  fix c cs x m rest
  assume "match_placeholder (c # cs) = Some x" and "(m, rest) = x"
  then have "length rest \<le> length (dropWhile name_char (drop 2 (c # cs)))"
    by (auto simp: match_placeholder_def Let_def split: if_splits)
  also have "\<dots> \<le> length (drop 2 (c # cs))" by (rule length_dropWhile_le)
  finally show "(rest, c # cs) \<in> measure length" by simp
qed simp_all

text \<open>
  Compiling and matching are modelled where a byte is a character: for an expression of
  the shape that \<^verbatim>\<open>patternToRegex\<close> produces, made of ASCII bytes and not longer than
  \<open>max_expr_size\<close>, and for a text made of ASCII bytes. Elsewhere the library reads its
  arguments as UTF-8: it refuses an expression that is not valid UTF-8, it matches code
  points and not bytes, and it refuses an expression beyond a certain size. What it
  answers there is not modelled but taken as a parameter, a record \<open>regexp_lib\<close>:
  whether \<^verbatim>\<open>regexp.Compile\<close> accepts an expression, and the names and the submatches
  of an expression that it accepted. Every theorem below holds for every such record.
\<close>

definition ascii :: "string \<Rightarrow> bool" where
  "ascii s \<longleftrightarrow> (\<forall>c\<in>set s. \<not> digit7 c)"

definition max_expr_size :: nat where
  "max_expr_size = 1000000"

record regexp_lib =
  lib_Compile_ok :: "string \<Rightarrow> bool"
  lib_SubexpNames :: "string \<Rightarrow> string list"
  lib_FindStringSubmatch :: "string \<Rightarrow> string \<Rightarrow> string list option"

text \<open>
  An expression of the modelled shape, anchored at both ends, is a sequence of literal
  bytes and of named groups \<^verbatim>\<open>(?P<name>[^/]+)\<close>. A \<^verbatim>\<open>*Regexp\<close> is such a sequence,
  kept with the text of its expression, or an expression that the library compiled and
  the model does not look into.
\<close>

datatype re_item =
    Lit char
  | Group string

datatype Regexp =
    Shape string "re_item list"
  | Opaque string

text \<open>
  Reading an expression of the modelled shape: \<^verbatim>\<open>^\<close>, then items, then \<^verbatim>\<open>$\<close>. An
  item is a backslash before a special byte (the byte itself, literally), a named group,
  or a byte that is not special. The result is \<open>None\<close> for a text of another shape.
\<close>

function parse_items :: "string \<Rightarrow> re_item list option" where
  "parse_items [] = None"
| "parse_items (c # cs) =
     (if c = CHR ''$'' \<and> cs = [] then Some []
      else if c = backslash then
        (case cs of
           [] \<Rightarrow> None
         | d # ds \<Rightarrow> if special d then map_option ((#) (Lit d)) (parse_items ds) else None)
      else if c = CHR ''('' then
        (let name = takeWhile name_char (drop 3 cs); rest = dropWhile name_char (drop 3 cs)
         in if take 3 cs = ''?P<'' \<and> name \<noteq> [] \<and> take 7 rest = ''>[^/]+)''
            then map_option ((#) (Group name)) (parse_items (drop 7 rest))
            else None)
      else if special c then None
      else map_option ((#) (Lit c)) (parse_items cs))"
  by pat_completeness auto
termination
proof (relation "measure length")
  fix c cs name rest
  assume "rest = dropWhile name_char (drop 3 cs)"
  then have "length (drop 7 rest) \<le> length (drop 3 cs)"
    using length_dropWhile_le [of name_char "drop 3 cs"] by simp
  also have "\<dots> < length (c # cs)" by simp
  finally show "(drop 7 rest, c # cs) \<in> measure length" by simp
qed auto

definition parse_shape :: "string \<Rightarrow> re_item list option" where
  "parse_shape expr =
     (case expr of [] \<Rightarrow> None | c # cs \<Rightarrow> if c = CHR ''^'' then parse_items cs else None)"

text \<open>
  \<^verbatim>\<open>regexp.Compile\<close>: an expression in the modelled domain compiles to its items;
  for any other the parameter says whether the library accepts it. \<open>None\<close> is the
  error.
\<close>

definition regexp_Compile :: "regexp_lib \<Rightarrow> string \<Rightarrow> Regexp option" where
  "regexp_Compile lib expr =
     (case (if ascii expr \<and> length expr \<le> max_expr_size then parse_shape expr else None) of
        Some items \<Rightarrow> Some (Shape expr items)
      | None \<Rightarrow> if lib_Compile_ok lib expr then Some (Opaque expr) else None)"

text \<open>
  \<^verbatim>\<open>Regexp.SubexpNames\<close>: the empty name of the whole match, then the groups' names.
\<close>

fun group_names :: "re_item list \<Rightarrow> string list" where
  "group_names [] = []"
| "group_names (Lit c # items) = group_names items"
| "group_names (Group name # items) = name # group_names items"

fun SubexpNames :: "regexp_lib \<Rightarrow> Regexp \<Rightarrow> string list" where
  "SubexpNames lib (Shape expr items) = [] # group_names items"
| "SubexpNames lib (Opaque expr) = lib_SubexpNames lib expr"

text \<open>
  \<^verbatim>\<open>Regexp.FindStringSubmatch\<close>. For an expression of the modelled shape and an ASCII
  text: the expression is anchored at both ends, so a match is the whole text. The
  library returns the match that a backtracking search finds first: a group
  \<^verbatim>\<open>[^/]+\<close> is greedy, it first takes every byte up to the next slash and gives bytes
  back one at a time, down to one byte, until the rest of the expression matches the rest
  of the text. \<open>try_group rest_match s k\<close> tries the lengths \<open>k\<close>, \<open>k - 1\<close>, ..., 1 for
  the group. The result is the whole match followed by the groups' texts, or \<open>None\<close>
  for \<^verbatim>\<open>nil\<close>. For any other expression or text the parameter gives the answer.
\<close>

fun try_group :: "(string \<Rightarrow> string list option) \<Rightarrow> string \<Rightarrow> nat \<Rightarrow> string list option" where
  "try_group rest_match s 0 = None"
| "try_group rest_match s (Suc k) =
     (case rest_match (drop (Suc k) s) of
        Some caps \<Rightarrow> Some (take (Suc k) s # caps)
      | None \<Rightarrow> try_group rest_match s k)"

primrec match_items :: "re_item list \<Rightarrow> string \<Rightarrow> string list option" where
  "match_items [] = (\<lambda>s. if s = [] then Some [] else None)"
| "match_items (item # items) = (\<lambda>s.
     case item of
       Lit c \<Rightarrow>
         (case s of [] \<Rightarrow> None | x # xs \<Rightarrow> if x = c then match_items items xs else None)
     | Group name \<Rightarrow>
         try_group (match_items items) s (length (takeWhile (\<lambda>x. x \<noteq> CHR ''/'') s)))"

fun FindStringSubmatch :: "regexp_lib \<Rightarrow> Regexp \<Rightarrow> string \<Rightarrow> string list option" where
  "FindStringSubmatch lib (Shape expr items) s =
     (if ascii s then map_option ((#) s) (match_items items s)
      else lib_FindStringSubmatch lib expr s)"
| "FindStringSubmatch lib (Opaque expr) s = lib_FindStringSubmatch lib expr s"

text \<open>
  A value of the parameter for the examples. The examples have ASCII patterns and
  targets only, so it is never asked.
\<close>

definition example_lib :: regexp_lib where
  "example_lib =
     \<lparr> lib_Compile_ok = (\<lambda>expr. False),
       lib_SubexpNames = (\<lambda>expr. []),
       lib_FindStringSubmatch = (\<lambda>expr s. None) \<rparr>"

subsection \<open>pattern.go\<close>

text \<open>
  \<^verbatim>\<open>patternToRegex\<close>: quote the pattern, replace the quoted placeholders by capture
  groups, anchor the result.
\<close>

definition patternToRegex :: "string \<Rightarrow> string \<times> string list" where
  "patternToRegex pattern =
     (let escapedPattern = regexp_QuoteMeta pattern;
          (regexPattern, varNames) = ReplaceAllStringFunc escapedPattern
      in (''^'' @ regexPattern @ ''$'', varNames))"

text \<open>
  \<^verbatim>\<open>extractVariables\<close>. The parameter \<^verbatim>\<open>varNames\<close> is not read; the names come from
  \<^verbatim>\<open>regex.SubexpNames()\<close>. The loop stores \<^verbatim>\<open>match[i]\<close> under the \<open>i\<close>-th name for
  every \<open>i\<close> but 0 whose name is not empty, in ascending order, so a later group of a
  name replaces an earlier one. The \<^verbatim>\<open>nil\<close> map of a failure is \<open>None\<close>.
\<close>

fun store_vars :: "(string \<times> string) list \<Rightarrow> (string \<rightharpoonup> string) \<Rightarrow> (string \<rightharpoonup> string)" where
  "store_vars [] result = result"
| "store_vars ((name, v) # rest) result =
     store_vars rest (if name \<noteq> [] then result(name \<mapsto> v) else result)"

definition extractVariables ::
  "regexp_lib \<Rightarrow> string \<Rightarrow> string list \<Rightarrow> string \<Rightarrow> (string \<rightharpoonup> string) option \<times> bool" where
  "extractVariables lib regexStr varNames tcurl =
     (case regexp_Compile lib regexStr of
        None \<Rightarrow> (None, False)
      | Some regex \<Rightarrow>
          (case FindStringSubmatch lib regex tcurl of
             None \<Rightarrow> (None, False)
           | Some match \<Rightarrow>
               (Some (store_vars (tl (zip (SubexpNames lib regex) match)) Map.empty), True)))"

text \<open>\<^verbatim>\<open>extractPathFromTCURL\<close>: the parsed path, or the target itself on a parse error.\<close>

definition extractPathFromTCURL :: "url_parser \<Rightarrow> string \<Rightarrow> string" where
  "extractPathFromTCURL url_Parse tcurl =
     (case url_Parse tcurl of None \<Rightarrow> tcurl | Some parsedURL \<Rightarrow> Path parsedURL)"

subsection \<open>authorizer.go\<close>

text \<open>
  The \<^verbatim>\<open>Authorizer\<close> struct has the one field \<^verbatim>\<open>authorizedPatterns\<close>; the methods
  take the pattern list in its place, after the two parameters that stand for the
  standard library. Both loops go through the patterns in order and return at the first
  one that matches.
\<close>

fun IsAuthorized_loop :: "regexp_lib \<Rightarrow> string list \<Rightarrow> string \<Rightarrow> bool" where
  "IsAuthorized_loop lib [] path = False"
| "IsAuthorized_loop lib (pattern # patterns) path =
     (let (regexStr, varNames) = patternToRegex pattern;
          (_, ok) = extractVariables lib regexStr varNames path
      in if ok then True else IsAuthorized_loop lib patterns path)"

definition IsAuthorized :: "regexp_lib \<Rightarrow> url_parser \<Rightarrow> string list \<Rightarrow> string \<Rightarrow> bool" where
  "IsAuthorized lib url_Parse authorizedPatterns tcurl =
     (let path = extractPathFromTCURL url_Parse tcurl
      in IsAuthorized_loop lib authorizedPatterns path)"

fun ExtractVariables_loop ::
  "regexp_lib \<Rightarrow> string list \<Rightarrow> string \<Rightarrow> (string \<rightharpoonup> string) option \<times> bool" where
  "ExtractVariables_loop lib [] path = (None, False)"
| "ExtractVariables_loop lib (pattern # patterns) path =
     (let (regexStr, varNames) = patternToRegex pattern;
          (vars, ok) = extractVariables lib regexStr varNames path
      in if ok then (vars, True) else ExtractVariables_loop lib patterns path)"

definition ExtractVariables ::
  "regexp_lib \<Rightarrow> url_parser \<Rightarrow> string list \<Rightarrow> string \<Rightarrow> (string \<rightharpoonup> string) option \<times> bool" where
  "ExtractVariables lib url_Parse authorizedPatterns tcurl =
     (let path = extractPathFromTCURL url_Parse tcurl
      in ExtractVariables_loop lib authorizedPatterns path)"

subsection \<open>Patterns as the specification words them\<close>

text \<open>
  \<open>spec_items\<close> reads a pattern directly: a brace, one or more name characters and a
  closing brace are a placeholder of that name; every other byte stands for itself.
  \<open>spec_matches items segs s\<close> says that \<open>s\<close> is the pattern with its placeholders, in
  order, replaced by the segments \<open>segs\<close>, each of them non-empty and without a slash.
  \<open>spec_vars\<close> is the map from the placeholders' names to their segments; where a
  name occurs twice in a pattern, its last segment.
\<close>

definition spec_placeholder :: "string \<Rightarrow> (string \<times> string) option" where
  "spec_placeholder s =
     (case s of
        [] \<Rightarrow> None
      | c # cs \<Rightarrow>
          (let name = takeWhile name_char cs; rest = dropWhile name_char cs
           in if c = CHR ''{'' \<and> name \<noteq> [] \<and> take 1 rest = ''}''
              then Some (name, drop 1 rest) else None))"

function spec_items :: "string \<Rightarrow> re_item list" where
  "spec_items [] = []"
| "spec_items (c # cs) =
     (case spec_placeholder (c # cs) of
        Some (name, rest) \<Rightarrow> Group name # spec_items rest
      | None \<Rightarrow> Lit c # spec_items cs)"
  by pat_completeness auto
termination
proof (relation "measure length")
  fix c cs x name rest
  assume "spec_placeholder (c # cs) = Some x" and "(name, rest) = x"
  then have "length rest \<le> length (dropWhile name_char cs)"
    by (auto simp: spec_placeholder_def Let_def split: if_splits)
  also have "\<dots> \<le> length cs" by (rule length_dropWhile_le)
  finally show "(rest, c # cs) \<in> measure length" by simp
qed simp_all

fun spec_matches :: "re_item list \<Rightarrow> string list \<Rightarrow> string \<Rightarrow> bool" where
  "spec_matches [] segs s = (segs = [] \<and> s = [])"
| "spec_matches (Lit c # items) segs s =
     (case s of [] \<Rightarrow> False | x # xs \<Rightarrow> x = c \<and> spec_matches items segs xs)"
| "spec_matches (Group name # items) segs s =
     (case segs of
        [] \<Rightarrow> False
      | seg # segs' \<Rightarrow>
          seg \<noteq> [] \<and> CHR ''/'' \<notin> set seg \<and> take (length seg) s = seg \<and>
          spec_matches items segs' (drop (length seg) s))"

definition spec_vars :: "re_item list \<Rightarrow> string list \<Rightarrow> (string \<rightharpoonup> string)" where
  "spec_vars items segs = map_of (rev (zip (group_names items) segs))"

definition spec_accepts :: "string \<Rightarrow> string \<Rightarrow> bool" where
  "spec_accepts pattern path \<longleftrightarrow> (\<exists>segs. spec_matches (spec_items pattern) segs path)"

text \<open>
  A pattern whose expression is in the modelled domain: ASCII bytes, and short enough
  for its expression, at most four bytes for each byte of the pattern and the two
  anchors, to stay within \<open>max_expr_size\<close>.
\<close>

definition plain_pattern :: "string \<Rightarrow> bool" where
  "plain_pattern pattern \<longleftrightarrow> ascii pattern \<and> 4 * length pattern + 2 \<le> max_expr_size"

subsection \<open>Expressions written out\<close>

text \<open>
  \<open>render items\<close> is the text of the expression with these items, without the anchors:
  a literal byte as \<^verbatim>\<open>QuoteMeta\<close> writes it, a group as the callback of
  \<^verbatim>\<open>patternToRegex\<close> writes it. \<open>item_ok\<close> says of a group that its name is one that
  the placeholder expression can capture.
\<close>

fun render_item :: "re_item \<Rightarrow> string" where
  "render_item (Lit c) = quote_char c"
| "render_item (Group name) = capture_group name"

definition render :: "re_item list \<Rightarrow> string" where
  "render items = concat (map render_item items)"

fun item_ok :: "re_item \<Rightarrow> bool" where
  "item_ok (Lit c) = True"
| "item_ok (Group name) = (name \<noteq> [] \<and> (\<forall>c\<in>set name. name_char c))"

section \<open>Stream manager and stream process (package stream)\<close>

text \<open>
  \<^verbatim>\<open>config.Config\<close> (config.go). Durations are numbers of nanoseconds.
\<close>

record Config =
  RTMPPort :: string
  HTTPPort :: string
  OutputDir :: string
  ReconnectDelay :: nat
  CleanupDelay :: nat
  AuthorizedPatterns :: "string list"

text \<open>
  A \<^verbatim>\<open>*StreamProcess\<close> is an address into a heap of \<^verbatim>\<open>StreamProcess\<close> objects:
  the manager's map, the handler of a connection and the monitor goroutine hold the same
  pointer, and \<^verbatim>\<open>Stop\<close> and \<^verbatim>\<open>monitor\<close> change the \<^verbatim>\<open>active\<close> flag through
  it. \<^verbatim>\<open>&StreamProcess{...}\<close> allocates at the end of the heap, so a new address is
  the heap's length. The fields that Go can hold \<^verbatim>\<open>nil\<close> in are options;
  \<open>cmd_Process\<close> is \<^verbatim>\<open>cmd.Process\<close>, set by a successful \<^verbatim>\<open>cmd.Start()\<close>.
\<close>

type_synonym addr = nat

record StreamProcess =
  username :: string
  cmd_Process :: "addr option"
  stdin :: "addr option"
  cancel :: "addr option"
  outputDir :: string
  active :: bool

text \<open>
  What the code does to the operating system, in order. The events of a creation carry
  the output directory; the events of a teardown carry the address of the stream.
\<close>

datatype os_event =
    EvMkdirAll string
  | EvCancelUnstarted string
  | EvStart string
  | EvGoMonitor addr
  | EvCloseStdin addr
  | EvCancel addr
  | EvWait addr
  | EvKill addr
  | EvScheduleRemoveAll addr string

text \<open>
  \<open>streams\<close> is \<^verbatim>\<open>Manager.streams\<close>, the \<^verbatim>\<open>sync.Map\<close> from user name to
  \<^verbatim>\<open>*StreamProcess\<close>.
\<close>

record world =
  heap :: "StreamProcess list"
  streams :: "string \<rightharpoonup> addr"
  os_log :: "os_event list"

definition NewManager :: world where
  "NewManager = \<lparr> heap = [], streams = Map.empty, os_log = [] \<rparr>"

text \<open>
  What the standard library and the operating system answer during one call:
  \<^verbatim>\<open>filepath.Join\<close>, and whether \<^verbatim>\<open>os.MkdirAll\<close>, \<^verbatim>\<open>cmd.StdinPipe\<close> and
  \<^verbatim>\<open>cmd.Start\<close> return without an error.
\<close>

record os_env =
  Join :: "string \<Rightarrow> string \<Rightarrow> string"
  MkdirAll_ok :: bool
  StdinPipe_ok :: bool
  Start_ok :: bool

datatype stream_error =
    MkdirAllFailed
  | StdinPipeFailed
  | StartFailed

text \<open>
  \<^verbatim>\<open>Manager.createNewStream\<close> (manager.go). \<^verbatim>\<open>createFFmpegCommand\<close> only builds the
  command. On a pipe or start error \<^verbatim>\<open>cancel()\<close> is called and nothing is allocated.
  Otherwise the object is allocated, \<^verbatim>\<open>active.Store(true)\<close> sets its flag and the
  monitor goroutine is started.
\<close>

definition createNewStream :: "string \<Rightarrow> Config \<Rightarrow> os_env \<Rightarrow> world \<Rightarrow> world \<times> (stream_error + addr)" where
  "createNewStream user cfg env w =
     (let outDir = Join env (OutputDir cfg) user;
          w1 = w\<lparr>os_log := os_log w @ [EvMkdirAll outDir]\<rparr>
      in if \<not> MkdirAll_ok env then (w1, Inl MkdirAllFailed)
         else if \<not> StdinPipe_ok env then
           (w1\<lparr>os_log := os_log w1 @ [EvCancelUnstarted outDir]\<rparr>, Inl StdinPipeFailed)
         else if \<not> Start_ok env then
           (w1\<lparr>os_log := os_log w1 @ [EvCancelUnstarted outDir]\<rparr>, Inl StartFailed)
         else
           (let a = length (heap w1);
                stream = \<lparr> username = user, cmd_Process = Some a, stdin = Some a,
                           cancel = Some a, outputDir = outDir, active = False \<rparr>;
                stream' = stream\<lparr>active := True\<rparr>
            in (w1\<lparr>heap := heap w1 @ [stream'],
                    os_log := os_log w1 @ [EvStart outDir, EvGoMonitor a]\<rparr>, Inr a)))"

text \<open>
  \<^verbatim>\<open>Manager.GetOrCreateStream\<close>: \<^verbatim>\<open>Load\<close>; an active entry is returned; an inactive
  one is deleted; then \<^verbatim>\<open>createNewStream\<close>, and \<^verbatim>\<open>Store\<close> only when it succeeded.
\<close>

definition GetOrCreateStream :: "string \<Rightarrow> Config \<Rightarrow> os_env \<Rightarrow> world \<Rightarrow> world \<times> (stream_error + addr)" where
  "GetOrCreateStream user cfg env w =
     (case (case streams w user of
              Some sp \<Rightarrow>
                (if active (heap w ! sp) then Inr sp
                 else Inl (w\<lparr>streams := (streams w)(user := None)\<rparr>))
            | None \<Rightarrow> Inl w) of
        Inr sp \<Rightarrow> (w, Inr sp)
      | Inl w1 \<Rightarrow>
          (case createNewStream user cfg env w1 of
             (w2, Inl err) \<Rightarrow> (w2, Inl err)
           | (w2, Inr stream) \<Rightarrow> (w2\<lparr>streams := (streams w2)(user \<mapsto> stream)\<rparr>, Inr stream)))"

text \<open>\<^verbatim>\<open>Manager.GetActiveStreams\<close>, as the set of the names it returns.\<close>

definition GetActiveStreams :: "world \<Rightarrow> string set" where
  "GetActiveStreams w = {user. \<exists>sp. streams w user = Some sp \<and> active (heap w ! sp)}"

text \<open>
  \<^verbatim>\<open>StreamProcess.monitor\<close> (process.go), from the moment \<^verbatim>\<open>cmd.Wait()\<close> returns: the
  deferred function clears the flag and deletes the entry of the stream's user name.
\<close>

definition monitor_exit :: "addr \<Rightarrow> world \<Rightarrow> world" where
  "monitor_exit sp w =
     w\<lparr>heap := (heap w)[sp := (heap w ! sp)\<lparr>active := False\<rparr>],
       streams := (streams w)(username (heap w ! sp) := None)\<rparr>"

text \<open>
  The teardown of \<^verbatim>\<open>StreamProcess.Stop\<close> after the flag test, as the events it causes.
  \<open>exited\<close> says which branch of the \<^verbatim>\<open>select\<close> is taken: the process exited within
  \<^verbatim>\<open>cfg.CleanupDelay\<close>, or the timer fired first and the process is killed. The last
  event is the goroutine that removes the output directory after the delay.
\<close>

definition teardown_events :: "addr \<Rightarrow> StreamProcess \<Rightarrow> bool \<Rightarrow> os_event list" where
  "teardown_events sp s exited =
     (if stdin s \<noteq> None then [EvCloseStdin sp] else []) @
     (if cancel s \<noteq> None then [EvCancel sp] else []) @
     [EvWait sp] @
     (if exited then [] else if cmd_Process s \<noteq> None then [EvKill sp] else []) @
     [EvScheduleRemoveAll sp (outputDir s)]"

text \<open>
  \<^verbatim>\<open>StreamProcess.Stop\<close>. \<^verbatim>\<open>sp.active.Swap(false)\<close> stores false and returns the old
  value in one atomic step; when the old value is false the call returns at once.
\<close>

definition Stop :: "Config \<Rightarrow> bool \<Rightarrow> addr \<Rightarrow> world \<Rightarrow> world" where
  "Stop cfg exited sp w =
     (let old = active (heap w ! sp);
          w1 = w\<lparr>heap := (heap w)[sp := (heap w ! sp)\<lparr>active := False\<rparr>]\<rparr>
      in if \<not> old then w1
         else w1\<lparr>os_log := os_log w1 @ teardown_events sp (heap w1 ! sp) exited\<rparr>)"

subsection \<open>Operations of several goroutines, interleaved\<close>

text \<open>
  The operations that goroutines apply to one manager, each atomic here: a whole
  \<^verbatim>\<open>GetOrCreateStream\<close> call, a \<^verbatim>\<open>Stop\<close> call, the exit of a stream's process seen
  by its monitor. \<open>run_ops\<close> applies a list of them in order.
\<close>

datatype manager_op =
    OpGetOrCreate string os_env
  | OpStop addr bool
  | OpMonitorExit addr

fun do_op :: "Config \<Rightarrow> manager_op \<Rightarrow> world \<Rightarrow> world" where
  "do_op cfg (OpGetOrCreate user env) w = fst (GetOrCreateStream user cfg env w)"
| "do_op cfg (OpStop sp exited) w = Stop cfg exited sp w"
| "do_op cfg (OpMonitorExit sp) w = monitor_exit sp w"

fun run_ops :: "Config \<Rightarrow> manager_op list \<Rightarrow> world \<Rightarrow> world" where
  "run_ops cfg [] w = w"
| "run_ops cfg (x # xs) w = run_ops cfg xs (do_op cfg x w)"

text \<open>
  \<^verbatim>\<open>GetOrCreateStream\<close> is not one atomic step: between its \<^verbatim>\<open>Load\<close>, its
  \<^verbatim>\<open>createNewStream\<close> and its \<^verbatim>\<open>Store\<close> another goroutine can run. A call in
  progress is at one of these points; \<open>goc_step\<close> runs it to the next one. The first
  step is the \<^verbatim>\<open>Load\<close> with the test of the flag and the \<^verbatim>\<open>Delete\<close>.
\<close>

datatype goc_pc =
    AtLoad
  | AtCreate
  | AtStore addr
  | Returned "stream_error + addr"

fun goc_step :: "string \<Rightarrow> Config \<Rightarrow> os_env \<Rightarrow> goc_pc \<times> world \<Rightarrow> goc_pc \<times> world" where
  "goc_step user cfg env (AtLoad, w) =
     (case streams w user of
        Some sp \<Rightarrow>
          (if active (heap w ! sp) then (Returned (Inr sp), w)
           else (AtCreate, w\<lparr>streams := (streams w)(user := None)\<rparr>))
      | None \<Rightarrow> (AtCreate, w))"
| "goc_step user cfg env (AtCreate, w) =
     (case createNewStream user cfg env w of
        (w2, Inl err) \<Rightarrow> (Returned (Inl err), w2)
      | (w2, Inr stream) \<Rightarrow> (AtStore stream, w2))"
| "goc_step user cfg env (AtStore stream, w) =
     (Returned (Inr stream), w\<lparr>streams := (streams w)(user \<mapsto> stream)\<rparr>)"
| "goc_step user cfg env (Returned r, w) = (Returned r, w)"

text \<open>
  Two calls in progress on one manager. A schedule is a list of booleans: \<open>True\<close> lets
  the first call take its next step, \<open>False\<close> the second.
\<close>

fun run_schedule ::
  "string \<Rightarrow> Config \<Rightarrow> os_env \<Rightarrow> bool list \<Rightarrow> goc_pc \<times> goc_pc \<times> world \<Rightarrow> goc_pc \<times> goc_pc \<times> world" where
  "run_schedule user cfg env [] st = st"
| "run_schedule user cfg env (first # sched) (pc1, pc2, w) =
     (if first then
        (case goc_step user cfg env (pc1, w) of
           (pc1', w') \<Rightarrow> run_schedule user cfg env sched (pc1', pc2, w'))
      else
        (case goc_step user cfg env (pc2, w) of
           (pc2', w') \<Rightarrow> run_schedule user cfg env sched (pc1, pc2', w')))"

text \<open>\<^verbatim>\<open>config.DefaultConfig\<close> (config.go).\<close>

definition DefaultConfig :: Config where
  "DefaultConfig = \<lparr> RTMPPort = '':1935'', HTTPPort = '':8080'', OutputDir = ''./streams'',
     ReconnectDelay = 5 * 1000000000, CleanupDelay = 2 * 1000000000,
     AuthorizedPatterns = [''/live/{app}/{username}''] \<rparr>"

subsection \<open>Teardown events of one stream\<close>

text \<open>
  \<open>concerns sp\<close> picks the teardown events of the stream at \<open>sp\<close>;
  \<open>teardowns_of sp w\<close> is what has been done so far to tear that stream down.
  An operation is valid in a world when the pointer it is applied to has been allocated.
  \<open>teardown_inv\<close> is the invariant of the manager's worlds: a stream whose flag is set has
  no teardown event, and the teardown events of a stream are none or those of one
  \<^verbatim>\<open>Stop\<close> call.
\<close>

fun concerns :: "addr \<Rightarrow> os_event \<Rightarrow> bool" where
  "concerns sp (EvCloseStdin a) = (a = sp)"
| "concerns sp (EvCancel a) = (a = sp)"
| "concerns sp (EvWait a) = (a = sp)"
| "concerns sp (EvKill a) = (a = sp)"
| "concerns sp (EvScheduleRemoveAll a d) = (a = sp)"
| "concerns sp _ = False"

definition teardowns_of :: "addr \<Rightarrow> world \<Rightarrow> os_event list" where
  "teardowns_of sp w = filter (concerns sp) (os_log w)"

fun op_valid :: "manager_op \<Rightarrow> world \<Rightarrow> bool" where
  "op_valid (OpGetOrCreate user env) w = True"
| "op_valid (OpStop sp exited) w = (sp < length (heap w))"
| "op_valid (OpMonitorExit sp) w = (sp < length (heap w))"

fun ops_valid :: "Config \<Rightarrow> manager_op list \<Rightarrow> world \<Rightarrow> bool" where
  "ops_valid cfg [] w = True"
| "ops_valid cfg (x # xs) w = (op_valid x w \<and> ops_valid cfg xs (do_op cfg x w))"

definition teardown_inv :: "world \<Rightarrow> bool" where
  "teardown_inv w \<longleftrightarrow>
     (\<forall>sp. (sp < length (heap w) \<longrightarrow>
              (active (heap w ! sp) \<longrightarrow> teardowns_of sp w = []) \<and>
              (teardowns_of sp w = [] \<or>
               (\<exists>exited. teardowns_of sp w = teardown_events sp (heap w ! sp) exited))) \<and>
           (length (heap w) \<le> sp \<longrightarrow> teardowns_of sp w = []))"

subsection \<open>Example values\<close>

text \<open>
  An environment whose \<^verbatim>\<open>filepath.Join\<close> answers as the library does for a
  directory written \<^verbatim>\<open>./d\<close> or \<^verbatim>\<open>d\<close> and a plain name, with \<^verbatim>\<open>d/name\<close>, and
  with the three answers of the operating system as given; and the stream object that
  \<^verbatim>\<open>createNewStream\<close> makes for a user under the default configuration in that
  environment, with the flag as given.
\<close>

definition example_env :: "bool \<Rightarrow> bool \<Rightarrow> bool \<Rightarrow> os_env" where
  "example_env mkdir pipe start =
     \<lparr> Join = (\<lambda>dir name. (if take 2 dir = ''./'' then drop 2 dir else dir) @ ''/'' @ name),
       MkdirAll_ok = mkdir, StdinPipe_ok = pipe, Start_ok = start \<rparr>"

definition example_stream :: "string \<Rightarrow> addr \<Rightarrow> bool \<Rightarrow> StreamProcess" where
  "example_stream user a act =
     \<lparr> username = user, cmd_Process = Some a, stdin = Some a, cancel = Some a,
       outputDir = ''streams/'' @ user, active = act \<rparr>"

section \<open>The tag writer: bytes and layout\<close>

subsection \<open>Bytes of a word, as numbers\<close>

lemma ucast_u32: "(ucast (x::u32) :: u8) = of_nat (unat x)"
  by (simp only: of_nat_unat)

lemma ucast_drop_bit_u32: "(ucast (drop_bit n (x::u32)) :: u8) = of_nat (unat x div 2 ^ n)"
  by (simp only: ucast_u32 unat_drop_bit_eq) (simp only: drop_bit_eq_div)

lemma of_nat_mod_256: "(of_nat (n mod 256) :: u8) = of_nat n"
proof -
  have "unat (of_nat (n mod 256) :: u8) = unat (of_nat n :: u8)"
    by (simp add: unat_of_nat)
  then show ?thesis by (rule word_unat_eq_iff [THEN iffD2])
qed

lemma unat_byte: "unat (of_nat (n mod 256) :: u8) = n mod 256"
  by (simp add: unat_of_nat)

lemma bytes3_value:
  assumes "n < 16777216"
  shows "n div 65536 mod 256 * 65536 + n div 256 mod 256 * 256 + n mod 256 = (n::nat)"
proof -
  have e: "n div 65536 = n div 256 div 256" by (simp add: div_mult2_eq)
  have "n div 65536 < 256" using assms by (simp add: less_mult_imp_div_less)
  then have m: "n div 65536 mod 256 = n div 65536" by simp
  have "256 * (n div 256) + n mod 256 = n"
       "256 * (n div 256 div 256) + n div 256 mod 256 = n div 256"
    by (rule mult_div_mod_eq)+
  then show ?thesis unfolding m unfolding e by linarith
qed

lemma bytes4_value:
  assumes "n < 4294967296"
  shows "n div 16777216 mod 256 * 16777216 + n div 65536 mod 256 * 65536
         + n div 256 mod 256 * 256 + n mod 256 = (n::nat)"
proof -
  have e: "n div 65536 = n div 256 div 256" "n div 16777216 = n div 256 div 256 div 256"
    by (simp_all add: div_mult2_eq)
  have "n div 16777216 < 256" using assms by (simp add: less_mult_imp_div_less)
  then have m: "n div 16777216 mod 256 = n div 16777216" by simp
  have "256 * (n div 256) + n mod 256 = n"
       "256 * (n div 256 div 256) + n div 256 mod 256 = n div 256"
       "256 * (n div 256 div 256 div 256) + n div 256 div 256 mod 256 = n div 256 div 256"
    by (rule mult_div_mod_eq)+
  then show ?thesis unfolding m unfolding e by linarith
qed

lemma unat_dataSize:
  assumes "length p < 2 ^ 24"
  shows "unat (of_nat (length p) :: u32) = length p"
  using assms by (simp add: unat_of_nat)

lemma unat_prevTagSize:
  assumes "length p < 2 ^ 24"
  shows "unat ((of_nat (length p) :: u32) + 11) = 11 + length p"
proof -
  have "(of_nat (length p) :: u32) + 11 = of_nat (11 + length p)" by simp
  then show ?thesis using assms by (simp only: unat_of_nat) simp
qed

lemma byte_of_drop_bit:
  "(ucast (drop_bit 8 (x::u32)) :: u8) = of_nat (unat x div 256)"
  "(ucast (drop_bit 16 (x::u32)) :: u8) = of_nat (unat x div 65536)"
  "(ucast (drop_bit 24 (x::u32)) :: u8) = of_nat (unat x div 16777216)"
  using ucast_drop_bit_u32 [of 8 x] ucast_drop_bit_u32 [of 16 x] ucast_drop_bit_u32 [of 24 x]
  by simp_all

lemma makeFLVTagHeader_spec:
  "makeFLVTagHeader k d t =
     [k, of_nat (unat d div 65536), of_nat (unat d div 256), of_nat (unat d),
      of_nat (unat t div 65536), of_nat (unat t div 256), of_nat (unat t),
      of_nat (unat t div 16777216), 0, 0, 0]"
  by (simp only: makeFLVTagHeader_def byte_of_drop_bit) (simp only: ucast_u32)

lemma BigEndian_PutUint32_spec:
  "BigEndian_PutUint32 v =
     [of_nat (unat v div 16777216), of_nat (unat v div 65536), of_nat (unat v div 256), of_nat (unat v)]"
  by (simp only: BigEndian_PutUint32_def byte_of_drop_bit) (simp only: ucast_u32)

lemma makeFLVTagHeader_bytes:
  assumes "length p < 2 ^ 24"
  shows "makeFLVTagHeader k (of_nat (length p)) t @ p @ BigEndian_PutUint32 (of_nat (length p) + 11)
         = spec_tag_bytes k t p"
  unfolding makeFLVTagHeader_spec BigEndian_PutUint32_spec
    unat_dataSize [OF assms] unat_prevTagSize [OF assms] spec_tag_bytes_def Let_def of_nat_mod_256
  by simp

lemma low24:
  "(n mod 4294967296) div 65536 mod 256 = (n mod 16777216) div 65536 mod 256"
  "(n mod 4294967296) div 256 mod 256 = (n mod 16777216) div 256 mod 256"
  "(n mod 4294967296) mod 256 = (n mod 16777216) mod (256::nat)"
proof -
  have a: "n mod 4294967296 mod 16777216 = n mod 16777216"
    by (rule mod_mod_cancel) simp
  have b: "m div 65536 mod 256 = m mod 16777216 div 65536" for m :: nat
    using mod_mult2_eq [of m 65536 256] by simp
  have c: "m div 256 mod 256 = m mod 16777216 div 256 mod 256" for m :: nat
  proof -
    have "m mod 16777216 div 256 = m div 256 mod 65536"
      using mod_mult2_eq [of m 256 65536] by simp
    moreover have "m div 256 mod 65536 mod 256 = m div 256 mod 256"
      by (rule mod_mod_cancel) simp
    ultimately show ?thesis by simp
  qed
  have d: "m mod 256 = m mod 16777216 mod 256" for m :: nat
    by (rule mod_mod_cancel [symmetric]) simp
  show "(n mod 4294967296) div 65536 mod 256 = (n mod 16777216) div 65536 mod 256"
    using b [of "n mod 4294967296"] b [of "n mod 16777216"] a by simp
  show "(n mod 4294967296) div 256 mod 256 = (n mod 16777216) div 256 mod 256"
    using c [of "n mod 4294967296"] a by simp
  show "(n mod 4294967296) mod 256 = (n mod 16777216) mod (256::nat)"
    using d [of "n mod 4294967296"] a by simp
qed

lemma length_field_value:
  "unat (makeFLVTagHeader k (of_nat n) t ! 1) * 65536 + unat (makeFLVTagHeader k (of_nat n) t ! 2) * 256
     + unat (makeFLVTagHeader k (of_nat n) t ! 3) = n mod 2 ^ 24"
proof -
  have u: "unat (of_nat n :: u32) = n mod 4294967296" by (simp add: unat_of_nat)
  have v: "unat (of_nat m :: u8) = m mod 256" for m by (simp add: unat_of_nat)
  have h: "makeFLVTagHeader k (of_nat n) t ! 1 = of_nat (n mod 4294967296 div 65536)"
          "makeFLVTagHeader k (of_nat n) t ! 2 = of_nat (n mod 4294967296 div 256)"
          "makeFLVTagHeader k (of_nat n) t ! 3 = of_nat (n mod 4294967296)"
    unfolding makeFLVTagHeader_spec u by simp_all
  have e: "n mod 16777216 div 65536 mod 256 * 65536 + n mod 16777216 div 256 mod 256 * 256
           + n mod 16777216 mod 256 = n mod 16777216"
    by (rule bytes3_value) simp
  have "unat (makeFLVTagHeader k (of_nat n) t ! 1) * 65536
        + unat (makeFLVTagHeader k (of_nat n) t ! 2) * 256
        + unat (makeFLVTagHeader k (of_nat n) t ! 3) = n mod 16777216"
    unfolding h v low24 by (rule e)
  then show ?thesis by simp
qed

lemma spec_read_tag_roundtrip:
  assumes "length p < 2 ^ 24"
  shows "spec_read_tag (spec_tag_bytes k t p @ rest) = Some (k, t, p, 11 + length p, rest)"
proof -
  have N: "length p div 65536 mod 256 * 65536 + length p div 256 mod 256 * 256 + length p mod 256 = length p"
    using assms by (intro bytes3_value) simp
  have "unat t < 2 ^ LENGTH(32)" by (rule unsigned_less)
  then have T: "unat t div 16777216 mod 256 * 16777216 + unat t div 65536 mod 256 * 65536
               + unat t div 256 mod 256 * 256 + unat t mod 256 = unat t"
    by (intro bytes4_value) simp
  have M: "(11 + length p) div 16777216 mod 256 * 16777216 + (11 + length p) div 65536 mod 256 * 65536
               + (11 + length p) div 256 mod 256 * 256 + (11 + length p) mod 256 = 11 + length p"
    using assms by (intro bytes4_value) simp
  show ?thesis
    by (simp add: spec_tag_bytes_def Let_def unat_byte N T M)
qed

subsection \<open>What the calls hand to the sink\<close>

lemma WriteTag_buffer:
  "writer w = bytes_Buffer_Write \<Longrightarrow>
   WriteTag w k t p buf =
     (buf @ makeFLVTagHeader k (of_nat (length p)) t @ p @ BigEndian_PutUint32 (of_nat (length p) + 11), None)"
  by (simp add: WriteTag_def bytes_Buffer_Write_def Let_def)

lemma WriteTag_appends:
  assumes "writes_append (writer w) contents" and "WriteTag w k t p s = (s', None)"
  shows "contents s' = contents s @ makeFLVTagHeader k (of_nat (length p)) t @ p
           @ BigEndian_PutUint32 (of_nat (length p) + 11)"
proof -
  let ?h = "makeFLVTagHeader k (of_nat (length p)) t"
  let ?tr = "BigEndian_PutUint32 (of_nat (length p) + 11)"
  obtain s1 e1 where w1: "writer w s ?h = (s1, e1)" by (cases "writer w s ?h")
  obtain s2 e2 where w2: "writer w s1 p = (s2, e2)" by (cases "writer w s1 p")
  obtain s3 e3 where w3: "writer w s2 ?tr = (s3, e3)" by (cases "writer w s2 ?tr")
  from assms(2) w1 w2 w3 have "e1 = None" "e2 = None" "e3 = None" "s' = s3"
    by (auto simp: WriteTag_def Let_def split: option.splits)
  with assms(1) w1 w2 w3 show ?thesis
    unfolding writes_append_def by (metis append.assoc)
qed

lemma do_call_header_done:
  assumes "writer w = bytes_Buffer_Write" and "headerOnce w"
  shows "do_call c (w, buf) = (w, buf @ tag_of_call c)"
  using assms
  by (cases c) (simp_all add: WriteHeader_def WriteAudio_def WriteVideo_def WriteScript_def WriteTag_buffer)

lemma do_calls_header_done:
  assumes "writer w = bytes_Buffer_Write" and "headerOnce w"
  shows "do_calls cs (w, buf) = (w, buf @ concat (map tag_of_call cs))"
  using assms by (induction cs arbitrary: buf) (simp_all add: do_call_header_done)

lemma do_call_fresh:
  assumes "writer w = bytes_Buffer_Write" and "\<not> headerOnce w"
  shows "do_call c (w, buf) = (w\<lparr>headerOnce := True\<rparr>, buf @ flv_header @ tag_of_call c)"
  using assms
  by (cases c) (simp_all add: WriteHeader_def WriteAudio_def WriteVideo_def WriteScript_def WriteTag_buffer
      bytes_Buffer_Write_def)

subsection \<open>Claims about the tag writer\<close>

text \<open>
  C1 (as stated). A payload whose length does not fit in 24 bits makes \<^verbatim>\<open>WriteTag\<close>
  fail, and no truncated length is written. This is false of the code: with a payload of
  \<open>2 ^ 24\<close> zero bytes and a sink that accepts every write, \<^verbatim>\<open>WriteTag\<close> returns no
  error; the length field it wrote is \<open>0, 0, 0\<close> and the trailer is \<open>2 ^ 24 + 11\<close>.
\<close>

theorem WriteTag_oversize_counterexample:
  "WriteTag (NewWriter bytes_Buffer_Write) 9 0 (replicate 16777216 0) [] =
     ([9, 0, 0, 0, 0, 0, 0, 0, 0, 0, 0] @ replicate 16777216 0 @ [1, 0, 0, 11], None)"
  by (simp add: WriteTag_def NewWriter_def bytes_Buffer_Write_def makeFLVTagHeader_def
        BigEndian_PutUint32_def)

text \<open>
  C1 (amended). \<^verbatim>\<open>WriteTag\<close> does not look at the payload length: on a sink that
  accepts every write it returns no error for a payload of any length, having written the
  tag header, the payload and the trailer; and the 3-byte length field, read big-endian,
  is the length modulo \<open>2 ^ 24\<close>. The field is the length itself exactly for payloads
  shorter than \<open>2 ^ 24\<close> bytes.
\<close>

theorem WriteTag_length_field_low_24_bits:
  "WriteTag (NewWriter bytes_Buffer_Write) k t p buf =
     (buf @ makeFLVTagHeader k (of_nat (length p)) t @ p
          @ BigEndian_PutUint32 (of_nat (length p) + 11), None) \<and>
   unat (makeFLVTagHeader k (of_nat (length p)) t ! 1) * 65536
     + unat (makeFLVTagHeader k (of_nat (length p)) t ! 2) * 256
     + unat (makeFLVTagHeader k (of_nat (length p)) t ! 3) = length p mod 2 ^ 24"
  using length_field_value [of k "length p" t]
  by (simp add: WriteTag_buffer NewWriter_def)

text \<open>
  C2. For every kind code (in particular 8, 9 and 18), every 32-bit timestamp \<open>t\<close> and
  every payload \<open>p\<close> of length \<open>N < 2 ^ 24\<close>: when \<^verbatim>\<open>WriteTag\<close> returns no error on
  a sink whose successful writes append, the sink has received exactly the kind byte, \<open>N\<close>
  in 3 bytes big-endian, bits 16-23, 8-15, 0-7 and then 24-31 of \<open>t\<close>, three zero bytes,
  the payload and \<open>11 + N\<close> in 4 bytes big-endian; and reading those bytes back gives the
  same kind, timestamp and payload, and a trailer of \<open>11 + N\<close>.
\<close>

theorem WriteTag_emits_tag:
  assumes "writes_append (writer w) contents"
      and "length p < 2 ^ 24"
      and "WriteTag w k t p s = (s', None)"
  shows "contents s' = contents s @ spec_tag_bytes k t p \<and>
         spec_read_tag (spec_tag_bytes k t p) = Some (k, t, p, 11 + length p, [])"
  using WriteTag_appends [OF assms(1) assms(3)] makeFLVTagHeader_bytes [OF assms(2), of k t]
    spec_read_tag_roundtrip [OF assms(2), of k t "[]"]
  by simp

theorem WriteTag_emits_tag_witness:
  "writes_append (writer (NewWriter bytes_Buffer_Write)) (\<lambda>buf. buf) \<and>
   length [1, 2, 3 :: u8] < 2 ^ 24 \<and>
   WriteTag (NewWriter bytes_Buffer_Write) 9 12345 [1, 2, 3] [] =
     ([9, 0, 0, 3, 0, 0x30, 0x39, 0, 0, 0, 0, 1, 2, 3, 0, 0, 0, 14], None) \<and>
   spec_tag_bytes 9 12345 [1, 2, 3] = [9, 0, 0, 3, 0, 0x30, 0x39, 0, 0, 0, 0, 1, 2, 3, 0, 0, 0, 14] \<and>
   spec_read_tag [9, 0, 0, 3, 0, 0x30, 0x39, 0, 0, 0, 0, 1, 2, 3, 0, 0, 0, 14] =
     Some (9, 12345, [1, 2, 3], 14, [])"
proof -
  have a: "writes_append (writer (NewWriter bytes_Buffer_Write)) (\<lambda>buf. buf)"
    by (simp add: writes_append_def NewWriter_def bytes_Buffer_Write_def)
  have b: "length [1, 2, 3 :: u8] < 2 ^ 24" by simp
  have c: "WriteTag (NewWriter bytes_Buffer_Write) 9 12345 [1, 2, 3] [] =
     ([9, 0, 0, 3, 0, 0x30, 0x39, 0, 0, 0, 0, 1, 2, 3, 0, 0, 0, 14], None)"
    by (simp add: WriteTag_def NewWriter_def bytes_Buffer_Write_def makeFLVTagHeader_def
        BigEndian_PutUint32_def)
  from WriteTag_emits_tag [OF a b c] a b c show ?thesis by simp
qed

text \<open>
  What the once-flag gives. On an in-memory sink, after any non-empty sequence of calls
  of \<^verbatim>\<open>WriteHeader\<close>, \<^verbatim>\<open>WriteAudio\<close>, \<^verbatim>\<open>WriteVideo\<close> and \<^verbatim>\<open>WriteScript\<close>
  on one writer made by \<^verbatim>\<open>NewWriter\<close>, the sink has received the header once, then
  the tags in call order. A \<^verbatim>\<open>WriteHeader\<close> after a \<^verbatim>\<open>WriteHeader\<close> on the same
  writer changes nothing, for every sink.
\<close>

lemma header_once_on_buffer:
  "do_calls (c # cs) (NewWriter bytes_Buffer_Write, buf) =
     ((NewWriter bytes_Buffer_Write)\<lparr>headerOnce := True\<rparr>,
      buf @ flv_header @ concat (map tag_of_call (c # cs))) \<and>
   WriteHeader (fst (WriteHeader w s)) (snd (WriteHeader w s)) = WriteHeader w s"
proof -
  have "do_call c (NewWriter bytes_Buffer_Write, buf) =
          ((NewWriter bytes_Buffer_Write)\<lparr>headerOnce := True\<rparr>, buf @ flv_header @ tag_of_call c)"
    by (rule do_call_fresh) (simp_all add: NewWriter_def)
  moreover have "do_calls cs ((NewWriter bytes_Buffer_Write)\<lparr>headerOnce := True\<rparr>, b) =
          ((NewWriter bytes_Buffer_Write)\<lparr>headerOnce := True\<rparr>, b @ concat (map tag_of_call cs))" for b
    by (rule do_calls_header_done) (simp_all add: NewWriter_def)
  moreover have "WriteHeader (fst (WriteHeader w s)) (snd (WriteHeader w s)) = WriteHeader w s"
    by (simp add: WriteHeader_def)
  ultimately show ?thesis by simp
qed

text \<open>
  C8. For every output sink the header bytes are emitted exactly once, before the first
  tag. The code means this (\<^verbatim>\<open>sync.Once\<close>, the comment "only once") and misses it:
  the once-flag belongs to the \<^verbatim>\<open>Writer\<close>, \<^verbatim>\<open>NewWriter\<close> makes a writer with the
  flag unset whatever the sink has received, and the connection handler makes a new
  writer at every publish, also over the input pipe of a stream that it reuses. Two
  writers over one sink, one \<^verbatim>\<open>WriteAudio\<close> each: the sink holds the header twice, the
  second time after the first tag.
\<close>

theorem second_Writer_emits_header_again:
  "snd (fst (WriteAudio (NewWriter bytes_Buffer_Write) 0 []
               (snd (fst (WriteAudio (NewWriter bytes_Buffer_Write) 0 [] []))))) =
     [0x46, 0x4C, 0x56, 1, 5, 0, 0, 0, 9, 0, 0, 0, 0] @ [8, 0, 0, 0, 0, 0, 0, 0, 0, 0, 0, 0, 0, 0, 11] @
     [0x46, 0x4C, 0x56, 1, 5, 0, 0, 0, 9, 0, 0, 0, 0] @ [8, 0, 0, 0, 0, 0, 0, 0, 0, 0, 0, 0, 0, 0, 11]"
  by (simp add: WriteAudio_def WriteHeader_def WriteTag_def NewWriter_def bytes_Buffer_Write_def
      makeFLVTagHeader_def BigEndian_PutUint32_def flv_header_def)

section \<open>The authorizer: from a pattern to its matcher\<close>

subsection \<open>Quoting and the placeholder expression\<close>

lemma name_char_not_special: "name_char c \<Longrightarrow> \<not> special c"
  by (auto simp: name_char_def special_def backslash_def)

lemma special_simps [simp]:
  "special backslash" "special (CHR ''{'')" "special (CHR ''}'')" "special (CHR ''('')"
  "special (CHR ''$'')"
  by (simp_all add: special_def)

lemma not_name_char [simp]:
  "\<not> name_char backslash" "\<not> name_char (CHR ''{'')" "\<not> name_char (CHR ''}'')"
  "\<not> name_char (CHR ''>'')"
  by (simp_all add: name_char_def backslash_def)

lemma backslash_neq [simp]:
  "backslash \<noteq> CHR ''{''" "backslash \<noteq> CHR ''}''" "backslash \<noteq> CHR ''$''" "backslash \<noteq> CHR ''(''"
  "CHR ''{'' \<noteq> backslash" "CHR ''}'' \<noteq> backslash" "CHR ''$'' \<noteq> backslash" "CHR ''('' \<noteq> backslash"
  by (simp_all add: backslash_def)

lemma QuoteMeta_Nil [simp]: "regexp_QuoteMeta [] = []"
  by (simp add: regexp_QuoteMeta_def)

lemma QuoteMeta_Cons: "regexp_QuoteMeta (c # cs) = quote_char c @ regexp_QuoteMeta cs"
  by (simp add: regexp_QuoteMeta_def)

lemma QuoteMeta_append: "regexp_QuoteMeta (xs @ ys) = regexp_QuoteMeta xs @ regexp_QuoteMeta ys"
  by (simp add: regexp_QuoteMeta_def)

lemma QuoteMeta_names: "\<forall>c\<in>set xs. name_char c \<Longrightarrow> regexp_QuoteMeta xs = xs"
  by (induction xs) (simp_all add: QuoteMeta_Cons quote_char_def name_char_not_special)

lemma QuoteMeta_not_brace: "regexp_QuoteMeta cs \<noteq> CHR ''{'' # xs"
  by (cases cs) (auto simp: QuoteMeta_Cons quote_char_def)

lemma takeWhile_QuoteMeta: "takeWhile name_char (regexp_QuoteMeta cs) = takeWhile name_char cs"
  by (induction cs) (auto simp: QuoteMeta_Cons quote_char_def name_char_not_special)

lemma dropWhile_QuoteMeta:
  "dropWhile name_char (regexp_QuoteMeta cs) = regexp_QuoteMeta (dropWhile name_char cs)"
  by (induction cs) (auto simp: QuoteMeta_Cons quote_char_def name_char_not_special)

lemma take2_QuoteMeta:
  "take 2 (regexp_QuoteMeta xs) = [backslash, CHR ''}''] \<longleftrightarrow> take 1 xs = ''}''"
  by (cases xs) (auto simp: QuoteMeta_Cons quote_char_def)

lemma spec_placeholder_SomeD:
  assumes "spec_placeholder (c # cs) = Some (name, rest)"
  shows "c = CHR ''{''" "name \<noteq> []" "\<forall>x\<in>set name. name_char x" "cs = name @ CHR ''}'' # rest"
proof -
  from assms have c: "c = CHR ''{''" and n: "name = takeWhile name_char cs" "name \<noteq> []"
    and t: "take 1 (dropWhile name_char cs) = ''}''" and r: "rest = drop 1 (dropWhile name_char cs)"
    by (auto simp: spec_placeholder_def Let_def split: if_splits)
  show "c = CHR ''{''" by (rule c)
  show "name \<noteq> []" by (rule n)
  show "\<forall>x\<in>set name. name_char x" using n(1) by (auto dest: set_takeWhileD)
  from t r have "dropWhile name_char cs = CHR ''}'' # rest"
    by (cases "dropWhile name_char cs") auto
  then show "cs = name @ CHR ''}'' # rest"
    using takeWhile_dropWhile_id [of name_char cs] n(1) by simp
qed

lemma takeWhile_names_append:
  "\<forall>x\<in>set name. name_char x \<Longrightarrow> \<not> name_char y \<Longrightarrow>
   takeWhile name_char (name @ y # ys) = name \<and> dropWhile name_char (name @ y # ys) = y # ys"
  by (induction name) simp_all

lemma match_placeholder_quoted:
  assumes "name \<noteq> []" and "\<forall>x\<in>set name. name_char x"
  shows "match_placeholder ([backslash, CHR ''{''] @ name @ [backslash, CHR ''}''] @ ys) =
           Some ([backslash, CHR ''{''] @ name @ [backslash, CHR ''}''], ys)"
  using assms takeWhile_names_append [OF assms(2), of backslash "CHR ''}'' # ys"]
  by (simp add: match_placeholder_def Let_def)

lemma placeholder_name_quoted:
  "placeholder_name ([backslash, CHR ''{''] @ name @ [backslash, CHR ''}'']) = name"
  by (simp add: placeholder_name_def)

lemma match_placeholder_not_backslash: "c \<noteq> backslash \<Longrightarrow> match_placeholder (c # cs) = None"
  by (simp add: match_placeholder_def)

lemma match_placeholder_not_brace:
  "d \<noteq> CHR ''{'' \<Longrightarrow> match_placeholder (c # d # cs) = None"
  by (simp add: match_placeholder_def)

lemma match_placeholder_before_QuoteMeta: "match_placeholder (c # regexp_QuoteMeta cs) = None"
proof (cases "regexp_QuoteMeta cs")
  case Nil
  then show ?thesis by (simp add: match_placeholder_def)
next
  case (Cons d ds)
  with QuoteMeta_not_brace [of cs ds] have "d \<noteq> CHR ''{''" by auto
  with Cons show ?thesis by (simp add: match_placeholder_not_brace)
qed

lemma match_placeholder_no_spec:
  assumes "spec_placeholder (CHR ''{'' # cs) = None"
  shows "match_placeholder (backslash # CHR ''{'' # regexp_QuoteMeta cs) = None"
  using assms
  by (auto simp: match_placeholder_def spec_placeholder_def Let_def takeWhile_QuoteMeta
      dropWhile_QuoteMeta take2_QuoteMeta split: if_splits)

lemma ReplaceAllStringFunc_QuoteMeta:
  "ReplaceAllStringFunc (regexp_QuoteMeta p) = (render (spec_items p), group_names (spec_items p))"
proof (induction p rule: spec_items.induct)
  case 1
  show ?case by (simp add: render_def)
next
  case (2 c cs)
  show ?case
  proof (cases "spec_placeholder (c # cs)")
    case (Some x)
    obtain name rest where x: "x = (name, rest)" by (cases x)
    note d = spec_placeholder_SomeD [OF Some [unfolded x]]
    have q: "regexp_QuoteMeta (c # cs) =
               [backslash, CHR ''{''] @ name @ [backslash, CHR ''}''] @ regexp_QuoteMeta rest"
      by (simp add: d(1) d(4) QuoteMeta_Cons QuoteMeta_append QuoteMeta_names [OF d(3)] quote_char_def)
    have ih: "ReplaceAllStringFunc (regexp_QuoteMeta rest) =
                (render (spec_items rest), group_names (spec_items rest))"
      using "2.IH"(2) [OF Some x [symmetric]] .
    have "ReplaceAllStringFunc ([backslash, CHR ''{''] @ name @ [backslash, CHR ''}''] @ regexp_QuoteMeta rest)
          = (capture_group name @ render (spec_items rest), name # group_names (spec_items rest))"
      using match_placeholder_quoted [OF d(2) d(3), of "regexp_QuoteMeta rest"] ih
      by (simp add: placeholder_name_quoted [simplified])
    then show ?thesis
      unfolding q using Some x by (simp add: render_def)
  next
    case None
    have ih: "ReplaceAllStringFunc (regexp_QuoteMeta cs) =
                (render (spec_items cs), group_names (spec_items cs))"
      using "2.IH"(1) [OF None] .
    have "ReplaceAllStringFunc (quote_char c @ regexp_QuoteMeta cs)
          = (quote_char c @ render (spec_items cs), group_names (spec_items cs))"
    proof (cases "special c")
      case False
      then have "c \<noteq> backslash" by auto
      then show ?thesis
        using False ih by (simp add: quote_char_def match_placeholder_not_backslash)
    next
      case True
      have "match_placeholder (backslash # c # regexp_QuoteMeta cs) = None"
      proof (cases "c = CHR ''{''")
        case True
        with None show ?thesis by (simp add: match_placeholder_no_spec)
      next
        case False
        then show ?thesis by (rule match_placeholder_not_brace)
      qed
      then show ?thesis
        using True ih by (simp add: quote_char_def match_placeholder_before_QuoteMeta)
    qed
    then show ?thesis
      using None by (simp add: QuoteMeta_Cons render_def)
  qed
qed

subsection \<open>Compiling the expression gives back the pattern's items\<close>

lemma spec_items_ok: "\<forall>i\<in>set (spec_items p). item_ok i"
proof (induction p rule: spec_items.induct)
  case 1
  show ?case by simp
next
  case (2 c cs)
  show ?case
  proof (cases "spec_placeholder (c # cs)")
    case None
    with "2.IH"(1) show ?thesis by simp
  next
    case (Some x)
    obtain name rest where x: "x = (name, rest)" by (cases x)
    note d = spec_placeholder_SomeD [OF Some [unfolded x]]
    from "2.IH"(2) [OF Some x [symmetric]] Some x d(2) d(3) show ?thesis by simp
  qed
qed

lemma parse_items_group:
  assumes "name \<noteq> []" and "\<forall>x\<in>set name. name_char x"
  shows "parse_items (capture_group name @ ys) = map_option ((#) (Group name)) (parse_items ys)"
proof -
  have "capture_group name @ ys = CHR ''('' # (''?P<'' @ name @ CHR ''>'' # (''[^/]+)'' @ ys))"
    by (simp add: capture_group_def)
  moreover have "takeWhile name_char (name @ CHR ''>'' # (''[^/]+)'' @ ys)) = name \<and>
        dropWhile name_char (name @ CHR ''>'' # (''[^/]+)'' @ ys)) = CHR ''>'' # (''[^/]+)'' @ ys)"
    by (rule takeWhile_names_append [OF assms(2)]) simp
  ultimately show ?thesis using assms(1) by (simp add: Let_def)
qed

lemma render_not_Nil: "render items @ ''$'' \<noteq> []"
  by simp

lemma parse_items_lit:
  assumes "ys \<noteq> []"
  shows "parse_items (quote_char c @ ys) = map_option ((#) (Lit c)) (parse_items ys)"
proof (cases "special c")
  case True
  then show ?thesis by (simp add: quote_char_def)
next
  case False
  then have "c \<noteq> CHR ''$''" "c \<noteq> backslash" "c \<noteq> CHR ''(''" by auto
  with False assms show ?thesis by (simp add: quote_char_def)
qed

lemma parse_items_render:
  assumes "\<forall>i\<in>set items. item_ok i"
  shows "parse_items (render items @ ''$'') = Some items"
  using assms
proof (induction items)
  case Nil
  show ?case by (simp add: render_def)
next
  case (Cons i items)
  then have ih: "parse_items (render items @ ''$'') = Some items" by simp
  show ?case
  proof (cases i)
    case (Lit c)
    have "parse_items (quote_char c @ (render items @ ''$'')) = Some (Lit c # items)"
      by (simp add: parse_items_lit ih del: parse_items.simps)
    then show ?thesis using Lit by (simp add: render_def del: parse_items.simps)
  next
    case (Group name)
    with Cons.prems have n: "name \<noteq> []" "\<forall>x\<in>set name. name_char x" by simp_all
    have "parse_items (capture_group name @ (render items @ ''$'')) = Some (Group name # items)"
      by (simp add: parse_items_group [OF n] ih del: parse_items.simps)
    then show ?thesis using Group by (simp add: render_def del: parse_items.simps)
  qed
qed

lemma patternToRegex_eq:
  "patternToRegex p = (''^'' @ render (spec_items p) @ ''$'', group_names (spec_items p))"
  by (simp add: patternToRegex_def ReplaceAllStringFunc_QuoteMeta)

lemma parse_shape_patternToRegex:
  "parse_shape (fst (patternToRegex p)) = Some (spec_items p)"
  using parse_items_render [OF spec_items_ok, of p]
  by (simp add: patternToRegex_eq parse_shape_def del: parse_items.simps)

lemma ascii_simps [simp]:
  "ascii []"
  "ascii (c # cs) \<longleftrightarrow> \<not> digit7 c \<and> ascii cs"
  "ascii (xs @ ys) \<longleftrightarrow> ascii xs \<and> ascii ys"
  by (auto simp: ascii_def)

lemma ascii_quote_char: "\<not> digit7 c \<Longrightarrow> ascii (quote_char c)"
  by (simp add: quote_char_def backslash_def)

lemma ascii_capture_group: "ascii name \<Longrightarrow> ascii (capture_group name)"
  by (simp add: capture_group_def)

lemma length_quote_char: "length (quote_char c) \<le> 4"
  by (simp add: quote_char_def)

lemma length_capture_group: "length (capture_group name) = 11 + length name"
  by (simp add: capture_group_def)

lemma ascii_render: "ascii p \<Longrightarrow> ascii (render (spec_items p))"
proof (induction p rule: spec_items.induct)
  case 1
  show ?case by (simp add: render_def)
next
  case (2 c cs)
  show ?case
  proof (cases "spec_placeholder (c # cs)")
    case None
    with "2.IH"(1) [OF None] "2.prems" show ?thesis
      by (simp add: render_def ascii_quote_char)
  next
    case (Some x)
    obtain name rest where x: "x = (name, rest)" by (cases x)
    note d = spec_placeholder_SomeD [OF Some [unfolded x]]
    from "2.prems" d(4) have a: "ascii name" "ascii rest" by simp_all
    from "2.IH"(2) [OF Some x [symmetric] a(2)] Some x a(1) show ?thesis
      by (simp add: render_def ascii_capture_group)
  qed
qed

lemma length_render: "length (render (spec_items p)) \<le> 4 * length p"
proof (induction p rule: spec_items.induct)
  case 1
  show ?case by (simp add: render_def)
next
  case (2 c cs)
  show ?case
  proof (cases "spec_placeholder (c # cs)")
    case None
    with "2.IH"(1) [OF None] length_quote_char [of c] show ?thesis
      by (simp add: render_def)
  next
    case (Some x)
    obtain name rest where x: "x = (name, rest)" by (cases x)
    note d = spec_placeholder_SomeD [OF Some [unfolded x]]
    have n: "1 \<le> length name" using d(2) by (cases name) simp_all
    have e: "length (render (spec_items (c # cs))) =
               11 + length name + length (render (spec_items rest))"
      using Some x by (simp add: render_def length_capture_group)
    have l: "length (c # cs) = 2 + length name + length rest"
      using d(4) by simp
    from "2.IH"(2) [OF Some x [symmetric]] have ih: "length (render (spec_items rest)) \<le> 4 * length rest" .
    show ?thesis unfolding e l using n ih by (simp add: algebra_simps)
  qed
qed

lemma patternToRegex_in_domain:
  assumes "plain_pattern p"
  shows "ascii (fst (patternToRegex p)) \<and> length (fst (patternToRegex p)) \<le> max_expr_size"
proof -
  from assms have a: "ascii p" and l: "4 * length p + 2 \<le> max_expr_size"
    by (simp_all add: plain_pattern_def)
  have "length (fst (patternToRegex p)) = length (render (spec_items p)) + 2"
    by (simp add: patternToRegex_eq)
  with length_render [of p] l have "length (fst (patternToRegex p)) \<le> max_expr_size" by simp
  moreover have "ascii (fst (patternToRegex p))"
    using ascii_render [OF a] by (simp add: patternToRegex_eq)
  ultimately show ?thesis by simp
qed

lemma regexp_Compile_patternToRegex:
  assumes "plain_pattern p"
  shows "regexp_Compile lib (fst (patternToRegex p)) =
           Some (Shape (fst (patternToRegex p)) (spec_items p))"
  using patternToRegex_in_domain [OF assms] parse_shape_patternToRegex [of p]
  by (simp add: regexp_Compile_def)

subsection \<open>The matcher and the specification's reading of a pattern\<close>

lemma try_group_SomeD:
  "try_group f s k = Some r \<Longrightarrow>
   \<exists>j caps. 0 < j \<and> j \<le> k \<and> f (drop j s) = Some caps \<and> r = take j s # caps"
proof (induction k)
  case 0
  then show ?case by simp
next
  case (Suc k)
  show ?case
  proof (cases "f (drop (Suc k) s)")
    case None
    with Suc obtain j caps where "0 < j" "j \<le> k" "f (drop j s) = Some caps" "r = take j s # caps"
      by auto
    then show ?thesis by (intro exI [of _ j] exI [of _ caps]) simp
  next
    case (Some caps)
    with Suc.prems have "r = take (Suc k) s # caps" by simp
    with Some show ?thesis by (intro exI [of _ "Suc k"] exI [of _ caps]) simp
  qed
qed

lemma try_group_complete:
  "0 < j \<Longrightarrow> j \<le> k \<Longrightarrow> f (drop j s) \<noteq> None \<Longrightarrow> try_group f s k \<noteq> None"
proof (induction k)
  case 0
  then show ?case by simp
next
  case (Suc k)
  show ?case
  proof (cases "j = Suc k")
    case True
    with Suc.prems show ?thesis by (auto split: option.splits)
  next
    case False
    with Suc.prems have "j \<le> k" by simp
    with Suc have "try_group f s k \<noteq> None" by simp
    then show ?thesis by (auto split: option.splits)
  qed
qed

lemma take_takeWhile_prefix:
  assumes "j \<le> length (takeWhile P s)"
  shows "take j s = take j (takeWhile P s)"
proof -
  have "take j s = take j (takeWhile P s @ dropWhile P s)" by simp
  also have "\<dots> = take j (takeWhile P s)" using assms by (simp del: takeWhile_dropWhile_id)
  finally show ?thesis .
qed

lemma prefix_le_takeWhile:
  assumes "take (length seg) s = seg" and "\<forall>x\<in>set seg. P x"
  shows "length seg \<le> length (takeWhile P s)"
proof -
  have "s = seg @ drop (length seg) s"
    using assms(1) append_take_drop_id [of "length seg" s] by simp
  then have "takeWhile P s = takeWhile P (seg @ drop (length seg) s)" by simp
  also have "\<dots> = seg @ takeWhile P (drop (length seg) s)"
    using assms(2) by (simp add: takeWhile_append2)
  finally show ?thesis by simp
qed

lemma match_items_sound:
  "match_items items s = Some caps \<Longrightarrow> spec_matches items caps s"
proof (induction items arbitrary: s caps)
  case Nil
  then show ?case by (simp split: if_splits)
next
  case (Cons i items)
  show ?case
  proof (cases i)
    case (Lit c)
    with Cons show ?thesis by (auto split: list.splits if_splits)
  next
    case (Group name)
    let ?k = "length (takeWhile (\<lambda>x. x \<noteq> CHR ''/'') s)"
    from Cons.prems Group have "try_group (match_items items) s ?k = Some caps" by simp
    from try_group_SomeD [OF this] obtain j caps' where
      j: "0 < j" "j \<le> ?k" "match_items items (drop j s) = Some caps'" "caps = take j s # caps'"
      by blast
    have le: "j \<le> length s" using j(2) length_takeWhile_le [of "\<lambda>x. x \<noteq> CHR ''/''" s] by simp
    then have len: "length (take j s) = j" by simp
    have "set (take j s) \<subseteq> set (takeWhile (\<lambda>x. x \<noteq> CHR ''/'') s)"
      unfolding take_takeWhile_prefix [OF j(2)] by (rule set_take_subset)
    then have noslash: "CHR ''/'' \<notin> set (take j s)" by (auto dest: set_takeWhileD)
    have ne: "take j s \<noteq> []" using j(1) le by auto
    from Cons.IH [OF j(3)] have "spec_matches items caps' (drop j s)" .
    with ne noslash len show ?thesis by (simp add: Group j(4))
  qed
qed

lemma match_items_complete:
  "spec_matches items segs s \<Longrightarrow> match_items items s \<noteq> None"
proof (induction items arbitrary: s segs)
  case Nil
  then show ?case by simp
next
  case (Cons i items)
  show ?case
  proof (cases i)
    case (Lit c)
    with Cons show ?thesis by (auto split: list.splits)
  next
    case (Group name)
    with Cons.prems obtain seg segs' where
      s: "segs = seg # segs'" "seg \<noteq> []" "CHR ''/'' \<notin> set seg" "take (length seg) s = seg"
         "spec_matches items segs' (drop (length seg) s)"
      by (auto split: list.splits)
    from Cons.IH [OF s(5)] have m: "match_items items (drop (length seg) s) \<noteq> None" .
    have le: "length seg \<le> length (takeWhile (\<lambda>x. x \<noteq> CHR ''/'') s)"
      by (rule prefix_le_takeWhile [OF s(4)]) (use s(3) in auto)
    have pos: "0 < length seg" using s(2) by simp
    have "try_group (match_items items) s (length (takeWhile (\<lambda>x. x \<noteq> CHR ''/'') s)) \<noteq> None"
      using try_group_complete [of "length seg" _ "match_items items" s, OF pos le m] .
    then show ?thesis by (simp add: Group)
  qed
qed

lemma match_items_None_iff:
  "match_items (spec_items p) s = None \<longleftrightarrow> \<not> spec_accepts p s"
  unfolding spec_accepts_def
  using match_items_sound [of "spec_items p" s] match_items_complete [of "spec_items p" _ s]
  by (cases "match_items (spec_items p) s") auto

lemma spec_matches_length:
  "spec_matches items segs s \<Longrightarrow> length segs = length (group_names items)"
proof (induction items arbitrary: segs s)
  case Nil
  then show ?case by simp
next
  case (Cons i items)
  then show ?case by (cases i) (auto split: list.splits)
qed

subsection \<open>The two loops\<close>

lemma regexp_Compile_render:
  assumes "plain_pattern p"
  shows "regexp_Compile lib (CHR ''^'' # render (spec_items p) @ ''$'') =
           Some (Shape (CHR ''^'' # render (spec_items p) @ ''$'') (spec_items p))"
  using regexp_Compile_patternToRegex [OF assms, of lib] by (simp add: patternToRegex_eq)

lemma group_names_nonempty:
  "\<forall>i\<in>set items. item_ok i \<Longrightarrow> \<forall>n\<in>set (group_names items). n \<noteq> []"
proof (induction items)
  case Nil
  then show ?case by simp
next
  case (Cons i items)
  then show ?case by (cases i) auto
qed

lemma store_vars_map_of:
  "\<forall>n\<in>set (map fst kvs). n \<noteq> [] \<Longrightarrow> store_vars kvs m = m ++ map_of (rev kvs)"
proof (induction kvs arbitrary: m)
  case Nil
  then show ?case by simp
next
  case (Cons kv kvs)
  obtain n v where kv: "kv = (n, v)" by (cases kv)
  from Cons.prems kv have n: "n \<noteq> []" and rest: "\<forall>n\<in>set (map fst kvs). n \<noteq> []" by simp_all
  have "store_vars (kv # kvs) m = store_vars kvs (m(n \<mapsto> v))"
    using n kv by simp
  also have "\<dots> = m(n \<mapsto> v) ++ map_of (rev kvs)"
    by (rule Cons.IH [OF rest])
  also have "m(n \<mapsto> v) = m ++ [n \<mapsto> v]" by simp
  also have "(m ++ [n \<mapsto> v]) ++ map_of (rev kvs) = m ++ ([n \<mapsto> v] ++ map_of (rev kvs))"
    by (rule map_add_assoc [symmetric])
  also have "[n \<mapsto> v] ++ map_of (rev kvs) = map_of (rev (kv # kvs))"
    by (simp add: kv)
  finally show ?case .
qed

lemma store_vars_spec_vars:
  "store_vars (zip (group_names (spec_items p)) caps) Map.empty = spec_vars (spec_items p) caps"
proof -
  have "\<forall>n\<in>set (group_names (spec_items p)). n \<noteq> []"
    by (rule group_names_nonempty [OF spec_items_ok])
  then have "\<forall>n\<in>set (map fst (zip (group_names (spec_items p)) caps)). n \<noteq> []"
    by (auto dest: set_zip_leftD)
  from store_vars_map_of [OF this, of Map.empty] show ?thesis
    by (simp add: spec_vars_def)
qed

lemma extractVariables_patternToRegex:
  assumes "plain_pattern p" and "ascii path"
  shows "extractVariables lib (CHR ''^'' # render (spec_items p) @ ''$'') varNames path =
     (case match_items (spec_items p) path of
        None \<Rightarrow> (None, False)
      | Some caps \<Rightarrow> (Some (spec_vars (spec_items p) caps), True))"
  using assms(2)
  by (simp add: extractVariables_def regexp_Compile_render [OF assms(1)]
      store_vars_spec_vars split: option.splits)


lemma IsAuthorized_loop_Cons:
  assumes "plain_pattern p" and "ascii path"
  shows "IsAuthorized_loop lib (p # ps) path =
     (case match_items (spec_items p) path of
        None \<Rightarrow> IsAuthorized_loop lib ps path
      | Some caps \<Rightarrow> True)"
  by (simp add: patternToRegex_eq extractVariables_patternToRegex [OF assms] split: option.splits)

lemma IsAuthorized_loop_iff:
  assumes "\<forall>p\<in>set ps. plain_pattern p" and "ascii path"
  shows "IsAuthorized_loop lib ps path \<longleftrightarrow> (\<exists>p\<in>set ps. spec_accepts p path)"
  using assms(1)
proof (induction ps)
  case Nil
  show ?case by simp
next
  case (Cons p ps)
  then have p: "plain_pattern p" and ih: "IsAuthorized_loop lib ps path \<longleftrightarrow> (\<exists>p\<in>set ps. spec_accepts p path)"
    by simp_all
  show ?case
    using ih match_items_None_iff [of p path]
    by (cases "match_items (spec_items p) path")
       (auto simp: IsAuthorized_loop_Cons [OF p assms(2)] simp del: IsAuthorized_loop.simps)
qed

lemma IsAuthorized_loop_matchers:
  "IsAuthorized_loop lib ps path \<longleftrightarrow>
     (\<exists>p\<in>set ps. snd (extractVariables lib (fst (patternToRegex p)) (snd (patternToRegex p)) path))"
  by (induction ps) (auto simp: split_beta Let_def)

lemma loops_agree: "IsAuthorized_loop lib ps path = snd (ExtractVariables_loop lib ps path)"
  by (induction ps) (auto simp: split_beta Let_def)


subsection \<open>Examples, evaluated\<close>

lemma plain_pattern_examples:
  "plain_pattern ''/live/{app}/{username}''"
  "plain_pattern ''/vod/{id}''"
  "plain_pattern ''/live/{x}/{y}''"
  by (simp_all add: plain_pattern_def max_expr_size_def)

lemma ascii_examples:
  "ascii ''/live/test/johndoe''"
  "ascii ''/stream/test/johndoe''"
  "ascii ''/live/test/john''"
  "ascii ''/live/test/john?a/b''"
  by simp_all

lemma spec_items_example:
  "spec_items ''/live/{app}/{username}'' =
     [Lit CHR ''/'', Lit CHR ''l'', Lit CHR ''i'', Lit CHR ''v'', Lit CHR ''e'',
      Lit CHR ''/'', Group ''app'', Lit CHR ''/'', Group ''username'']"
  by (simp add: spec_placeholder_def name_char_def Let_def)


lemma match_items_example:
  "match_items (spec_items ''/live/{app}/{username}'') ''/live/test/johndoe''
      = Some [''test'', ''johndoe'']"
  "match_items (spec_items ''/live/{app}/{username}'') ''/stream/test/johndoe'' = None"
  "match_items (spec_items ''/live/{app}/{username}'') ''/live/test/john''
      = Some [''test'', ''john'']"
  "match_items (spec_items ''/live/{app}/{username}'') ''/live/test/john?a/b'' = None"
  unfolding spec_items_example by simp_all





lemma IsAuthorized_loop_example:
  "IsAuthorized_loop lib [''/live/{app}/{username}''] ''/live/test/johndoe''"
  "\<not> IsAuthorized_loop lib [''/live/{app}/{username}''] ''/stream/test/johndoe''"
  "IsAuthorized_loop lib [''/live/{app}/{username}''] ''/live/test/john''"
  by (simp_all only: IsAuthorized_loop_Cons [OF plain_pattern_examples(1) ascii_examples(1)]
      IsAuthorized_loop_Cons [OF plain_pattern_examples(1) ascii_examples(2)]
      IsAuthorized_loop_Cons [OF plain_pattern_examples(1) ascii_examples(3)]
      match_items_example option.case IsAuthorized_loop.simps(1) not_False_eq_True)

lemma extractVariables_verbatim_example:
  "\<not> snd (extractVariables lib (fst (patternToRegex ''/live/{app}/{username}''))
            (snd (patternToRegex ''/live/{app}/{username}'')) ''/live/test/john?a/b'')"
  unfolding patternToRegex_eq fst_conv snd_conv
  by (simp only: append_Cons append_Nil
      extractVariables_patternToRegex [OF plain_pattern_examples(1) ascii_examples(4)]
      match_items_example option.case snd_conv not_False_eq_True)


lemma plain_url_Parse_examples:
  "plain_url_Parse ''rtmp://host/live/test/johndoe'' =
     Some \<lparr> Scheme = ''rtmp'', Host = ''host'', Path = ''/live/test/johndoe'' \<rparr>"
  "plain_url_Parse ''rtmp://localhost/live/test/johndoe'' =
     Some \<lparr> Scheme = ''rtmp'', Host = ''localhost'', Path = ''/live/test/johndoe'' \<rparr>"
  "plain_url_Parse ''http://example.com/live/test/johndoe'' =
     Some \<lparr> Scheme = ''http'', Host = ''example.com'', Path = ''/live/test/johndoe'' \<rparr>"
  "plain_url_Parse ''/live/test/johndoe'' =
     Some \<lparr> Scheme = [], Host = [], Path = ''/live/test/johndoe'' \<rparr>"
  "plain_url_Parse ''rtmp://localhost/stream/test/johndoe'' =
     Some \<lparr> Scheme = ''rtmp'', Host = ''localhost'', Path = ''/stream/test/johndoe'' \<rparr>"
  "plain_url_Parse ''/live/test/john?a/b'' =
     Some \<lparr> Scheme = [], Host = [], Path = ''/live/test/john'' \<rparr>"
  by (simp_all add: plain_url_Parse_def is_letter_def Let_def)

lemma extractPath_examples:
  "extractPathFromTCURL plain_url_Parse ''rtmp://host/live/test/johndoe'' = ''/live/test/johndoe''"
  "extractPathFromTCURL plain_url_Parse ''rtmp://localhost/live/test/johndoe'' = ''/live/test/johndoe''"
  "extractPathFromTCURL plain_url_Parse ''http://example.com/live/test/johndoe'' = ''/live/test/johndoe''"
  "extractPathFromTCURL plain_url_Parse ''/live/test/johndoe'' = ''/live/test/johndoe''"
  "extractPathFromTCURL plain_url_Parse ''rtmp://localhost/stream/test/johndoe'' = ''/stream/test/johndoe''"
  "extractPathFromTCURL plain_url_Parse ''/live/test/john?a/b'' = ''/live/test/john''"
  unfolding extractPathFromTCURL_def plain_url_Parse_examples by simp_all

subsection \<open>Claims about the authorizer\<close>



text \<open>
  C4 (as stated). \<^verbatim>\<open>IsAuthorized\<close> is true exactly when some matcher accepts the path
  of the target, and an already path-shaped target is matched verbatim. The second part
  is false of the code: every target goes through \<^verbatim>\<open>url.Parse\<close>, and what is matched
  is the \<^verbatim>\<open>Path\<close> that the parser returns. For the path-shaped target
  \<^verbatim>\<open>/live/test/john?a/b\<close> the parser cuts the query, the path is
  \<^verbatim>\<open>/live/test/john\<close>, and the target is authorized under the pattern
  \<^verbatim>\<open>/live/{app}/{username}\<close>, whose matcher does not accept the target itself.
\<close>

theorem IsAuthorized_query_cut_counterexample:
  "plain_url_Parse ''/live/test/john?a/b'' =
     Some \<lparr> Scheme = [], Host = [], Path = ''/live/test/john'' \<rparr> \<and>
   IsAuthorized example_lib plain_url_Parse [''/live/{app}/{username}''] ''/live/test/john?a/b'' \<and>
   \<not> snd (extractVariables example_lib (fst (patternToRegex ''/live/{app}/{username}''))
            (snd (patternToRegex ''/live/{app}/{username}'')) ''/live/test/john?a/b'')"
proof -
  have "IsAuthorized example_lib plain_url_Parse [''/live/{app}/{username}''] ''/live/test/john?a/b''"
    unfolding IsAuthorized_def Let_def extractPath_examples by (rule IsAuthorized_loop_example)
  with plain_url_Parse_examples(6) extractVariables_verbatim_example [of example_lib]
  show ?thesis by simp
qed

text \<open>
  C4 (amended). \<^verbatim>\<open>IsAuthorized\<close> is true exactly when for some configured pattern the
  matcher compiled from it accepts the result of \<^verbatim>\<open>extractPathFromTCURL\<close>; for ASCII
  patterns and an ASCII result, exactly when some pattern accepts it in the
  specification's reading. With no pattern it is false. The result of
  \<^verbatim>\<open>extractPathFromTCURL\<close> is the \<^verbatim>\<open>Path\<close> that \<^verbatim>\<open>url.Parse\<close> returns for the
  target, and the whole target, scheme and host included, where \<^verbatim>\<open>url.Parse\<close> returns
  an error. Two targets with the same such result get the same answer. So a target is
  matched as it is written only where the parser returns it as its own path or rejects
  it.
\<close>

theorem IsAuthorized_iff_some_matcher:
  "(IsAuthorized lib url_Parse ps t \<longleftrightarrow>
      (\<exists>p\<in>set ps. snd (extractVariables lib (fst (patternToRegex p)) (snd (patternToRegex p))
                          (extractPathFromTCURL url_Parse t)))) \<and>
   ((\<forall>p\<in>set ps. plain_pattern p) \<and> ascii (extractPathFromTCURL url_Parse t) \<longrightarrow>
      (IsAuthorized lib url_Parse ps t \<longleftrightarrow>
         (\<exists>p\<in>set ps. spec_accepts p (extractPathFromTCURL url_Parse t)))) \<and>
   IsAuthorized lib url_Parse [] t = False \<and>
   (\<forall>u. url_Parse t = Some u \<longrightarrow> extractPathFromTCURL url_Parse t = Path u) \<and>
   (url_Parse t = None \<longrightarrow> extractPathFromTCURL url_Parse t = t) \<and>
   (extractPathFromTCURL url_Parse t1 = extractPathFromTCURL url_Parse t2 \<longrightarrow>
      IsAuthorized lib url_Parse ps t1 = IsAuthorized lib url_Parse ps t2)"
proof (intro conjI impI allI)
  show "IsAuthorized lib url_Parse ps t \<longleftrightarrow>
      (\<exists>p\<in>set ps. snd (extractVariables lib (fst (patternToRegex p)) (snd (patternToRegex p))
                          (extractPathFromTCURL url_Parse t)))"
    unfolding IsAuthorized_def Let_def by (rule IsAuthorized_loop_matchers)
  show "IsAuthorized lib url_Parse [] t = False"
    by (simp add: IsAuthorized_def)
next
  assume "(\<forall>p\<in>set ps. plain_pattern p) \<and> ascii (extractPathFromTCURL url_Parse t)"
  then have h: "\<forall>p\<in>set ps. plain_pattern p" "ascii (extractPathFromTCURL url_Parse t)"
    by blast+
  show "IsAuthorized lib url_Parse ps t \<longleftrightarrow>
      (\<exists>p\<in>set ps. spec_accepts p (extractPathFromTCURL url_Parse t))"
    unfolding IsAuthorized_def Let_def by (rule IsAuthorized_loop_iff [OF h])
next
  fix u assume "url_Parse t = Some u"
  then show "extractPathFromTCURL url_Parse t = Path u"
    by (simp add: extractPathFromTCURL_def)
next
  assume "url_Parse t = None"
  then show "extractPathFromTCURL url_Parse t = t"
    by (simp add: extractPathFromTCURL_def)
next
  assume "extractPathFromTCURL url_Parse t1 = extractPathFromTCURL url_Parse t2"
  then show "IsAuthorized lib url_Parse ps t1 = IsAuthorized lib url_Parse ps t2"
    by (simp add: IsAuthorized_def)
qed

theorem IsAuthorized_iff_some_matcher_witness:
  "plain_pattern ''/live/{app}/{username}'' \<and>
   plain_url_Parse ''rtmp://localhost/live/test/johndoe'' =
     Some \<lparr> Scheme = ''rtmp'', Host = ''localhost'', Path = ''/live/test/johndoe'' \<rparr> \<and>
   plain_url_Parse ''http://example.com/live/test/johndoe'' =
     Some \<lparr> Scheme = ''http'', Host = ''example.com'', Path = ''/live/test/johndoe'' \<rparr> \<and>
   extractPathFromTCURL plain_url_Parse ''rtmp://localhost/live/test/johndoe'' = ''/live/test/johndoe'' \<and>
   extractPathFromTCURL plain_url_Parse ''http://example.com/live/test/johndoe'' = ''/live/test/johndoe'' \<and>
   extractPathFromTCURL (\<lambda>t. None) ''rtmp://localhost/live/test/johndoe'' =
     ''rtmp://localhost/live/test/johndoe'' \<and>
   ascii ''/live/test/johndoe'' \<and>
   spec_accepts ''/live/{app}/{username}'' ''/live/test/johndoe'' \<and>
   IsAuthorized example_lib plain_url_Parse [''/live/{app}/{username}''] ''rtmp://localhost/live/test/johndoe'' \<and>
   IsAuthorized example_lib plain_url_Parse [''/live/{app}/{username}''] ''http://example.com/live/test/johndoe'' \<and>
   IsAuthorized example_lib plain_url_Parse [''/live/{app}/{username}''] ''/live/test/johndoe'' \<and>
   \<not> IsAuthorized example_lib plain_url_Parse [''/live/{app}/{username}''] ''rtmp://localhost/stream/test/johndoe'' \<and>
   \<not> IsAuthorized example_lib plain_url_Parse [] ''rtmp://localhost/live/test/johndoe''"
proof -
  let ?ps = "[''/live/{app}/{username}'']"
  let ?t1 = "''rtmp://localhost/live/test/johndoe''"
  let ?t2 = "''http://example.com/live/test/johndoe''"
  note inst = IsAuthorized_iff_some_matcher [of example_lib plain_url_Parse ?ps ?t1 ?t1 ?t2]
  note inst2 = IsAuthorized_iff_some_matcher [of example_lib plain_url_Parse ?ps ?t2 ?t1 ?t2]
  note inst_fail = IsAuthorized_iff_some_matcher [of example_lib "\<lambda>t. None" ?ps ?t1 ?t1 ?t2]
  note inst_empty = IsAuthorized_iff_some_matcher [of example_lib plain_url_Parse "[]" ?t1 ?t1 ?t2]
  have pl: "\<forall>p\<in>set ?ps. plain_pattern p" by (simp add: plain_pattern_examples)
  have a: "IsAuthorized example_lib plain_url_Parse ?ps ?t1"
    unfolding IsAuthorized_def Let_def extractPath_examples by (rule IsAuthorized_loop_example)
  have p1: "extractPathFromTCURL plain_url_Parse ?t1 = ''/live/test/johndoe''"
    using inst [THEN conjunct2, THEN conjunct2, THEN conjunct2, THEN conjunct1]
      plain_url_Parse_examples(2) by simp
  have p2: "extractPathFromTCURL plain_url_Parse ?t2 = ''/live/test/johndoe''"
    using inst2 [THEN conjunct2, THEN conjunct2, THEN conjunct2, THEN conjunct1]
      plain_url_Parse_examples(3) by simp
  have same: "IsAuthorized example_lib plain_url_Parse ?ps ?t1 =
              IsAuthorized example_lib plain_url_Parse ?ps ?t2"
    using inst [THEN conjunct2, THEN conjunct2, THEN conjunct2, THEN conjunct2, THEN conjunct2]
      p1 p2 by simp
  have asc: "ascii (extractPathFromTCURL plain_url_Parse ?t1)"
    unfolding p1 by (rule ascii_examples)
  have "IsAuthorized example_lib plain_url_Parse ?ps ?t1 \<longleftrightarrow>
         (\<exists>p\<in>set ?ps. spec_accepts p (extractPathFromTCURL plain_url_Parse ?t1))"
    using inst [THEN conjunct2, THEN conjunct1] pl asc by blast
  with a have acc: "spec_accepts ''/live/{app}/{username}'' ''/live/test/johndoe''"
    unfolding p1 by simp
  have fail: "extractPathFromTCURL (\<lambda>t. None) ?t1 = ?t1"
    using inst_fail [THEN conjunct2, THEN conjunct2, THEN conjunct2, THEN conjunct2, THEN conjunct1]
    by simp
  have empty: "\<not> IsAuthorized example_lib plain_url_Parse [] ?t1"
    using inst_empty [THEN conjunct2, THEN conjunct2, THEN conjunct1] by simp
  have c: "IsAuthorized example_lib plain_url_Parse ?ps ''/live/test/johndoe''"
    unfolding IsAuthorized_def Let_def extractPath_examples by (rule IsAuthorized_loop_example)
  have d: "\<not> IsAuthorized example_lib plain_url_Parse ?ps ''rtmp://localhost/stream/test/johndoe''"
    unfolding IsAuthorized_def Let_def extractPath_examples by (rule IsAuthorized_loop_example)
  have b: "IsAuthorized example_lib plain_url_Parse ?ps ?t2"
    using a same by simp
  show ?thesis
    by (intro conjI plain_pattern_examples(1) plain_url_Parse_examples(2)
        plain_url_Parse_examples(3) p1 p2 fail ascii_examples(1) acc a b c d empty)
qed

text \<open>
  C10. For every pattern list and every target, \<^verbatim>\<open>IsAuthorized\<close> returns what
  \<^verbatim>\<open>ExtractVariables\<close> returns as its second result, whatever the standard library
  answers.
\<close>

theorem IsAuthorized_agrees_with_ExtractVariables:
  "IsAuthorized lib url_Parse ps t = snd (ExtractVariables lib url_Parse ps t)"
  by (simp add: IsAuthorized_def ExtractVariables_def loops_agree)

text \<open>
  C5. For every variable map and every publishing identity: an empty identity is an
  error; otherwise, when the map has the key \<open>username\<close>, the call is an error exactly
  when the mapped value is not the identity (equality of the byte strings, so case
  matters); otherwise there is no error.
\<close>

theorem ValidateAuthentication_spec:
  "(p = [] \<longrightarrow> ValidateAuthentication vars p \<noteq> None) \<and>
   (p \<noteq> [] \<longrightarrow> (\<forall>u. vars ''username'' = Some u \<longrightarrow>
        (ValidateAuthentication vars p \<noteq> None) = (u \<noteq> p))) \<and>
   (p \<noteq> [] \<longrightarrow> vars ''username'' = None \<longrightarrow> ValidateAuthentication vars p = None)"
  by (simp add: ValidateAuthentication_def)

theorem ValidateAuthentication_spec_witness:
  "ValidateAuthentication [''username'' \<mapsto> ''johndoe''] [] \<noteq> None \<and>
   ValidateAuthentication [''username'' \<mapsto> ''johndoe''] ''johndoe'' = None \<and>
   ValidateAuthentication [''username'' \<mapsto> ''johndoe''] ''alice'' \<noteq> None \<and>
   ValidateAuthentication [''username'' \<mapsto> ''johndoe''] ''Johndoe'' \<noteq> None \<and>
   ValidateAuthentication [''app'' \<mapsto> ''test''] ''anyone'' = None"
  using ValidateAuthentication_spec [of "[]" "[''username'' \<mapsto> ''johndoe'']"]
        ValidateAuthentication_spec [of "''johndoe''" "[''username'' \<mapsto> ''johndoe'']"]
        ValidateAuthentication_spec [of "''alice''" "[''username'' \<mapsto> ''johndoe'']"]
        ValidateAuthentication_spec [of "''Johndoe''" "[''username'' \<mapsto> ''johndoe'']"]
        ValidateAuthentication_spec [of "''anyone''" "[''app'' \<mapsto> ''test'']"]
  by simp

section \<open>The stream manager\<close>

subsection \<open>Creation, lookup and teardown\<close>

lemma createNewStream_fail:
  assumes "\<not> (MkdirAll_ok env \<and> StdinPipe_ok env \<and> Start_ok env)"
  shows "\<exists>w' e. createNewStream u cfg env w = (w', Inl e) \<and> heap w' = heap w \<and> streams w' = streams w
           \<and> os_log w' = os_log w @ EvMkdirAll (Join env (OutputDir cfg) u) #
                 (if MkdirAll_ok env then [EvCancelUnstarted (Join env (OutputDir cfg) u)] else [])
           \<and> filter (concerns sp) (os_log w') = filter (concerns sp) (os_log w)"
  using assms by (auto simp: createNewStream_def Let_def)

lemma createNewStream_ok:
  assumes "MkdirAll_ok env \<and> StdinPipe_ok env \<and> Start_ok env"
  shows "\<exists>w'. createNewStream u cfg env w = (w', Inr (length (heap w))) \<and>
           heap w' = heap w @ [\<lparr> username = u, cmd_Process = Some (length (heap w)),
                                  stdin = Some (length (heap w)), cancel = Some (length (heap w)),
                                  outputDir = Join env (OutputDir cfg) u, active = True \<rparr>] \<and>
           streams w' = streams w \<and>
           os_log w' = os_log w @ [EvMkdirAll (Join env (OutputDir cfg) u),
                                   EvStart (Join env (OutputDir cfg) u), EvGoMonitor (length (heap w))]"
  using assms by (simp add: createNewStream_def Let_def)

lemma GetOrCreateStream_active:
  assumes "streams w u = Some a" and "active (heap w ! a)"
  shows "GetOrCreateStream u cfg env w = (w, Inr a)"
  using assms by (simp add: GetOrCreateStream_def)

lemma GetOrCreateStream_create:
  assumes "\<not> (\<exists>a. streams w u = Some a \<and> active (heap w ! a))"
      and "MkdirAll_ok env \<and> StdinPipe_ok env \<and> Start_ok env"
  shows "\<exists>w'. GetOrCreateStream u cfg env w = (w', Inr (length (heap w))) \<and>
           heap w' = heap w @ [\<lparr> username = u, cmd_Process = Some (length (heap w)),
                                  stdin = Some (length (heap w)), cancel = Some (length (heap w)),
                                  outputDir = Join env (OutputDir cfg) u, active = True \<rparr>] \<and>
           streams w' = (streams w)(u \<mapsto> length (heap w)) \<and>
           os_log w' = os_log w @ [EvMkdirAll (Join env (OutputDir cfg) u),
                                   EvStart (Join env (OutputDir cfg) u), EvGoMonitor (length (heap w))]"
proof (cases "streams w u")
  case None
  with createNewStream_ok [OF assms(2), of u cfg w] show ?thesis
    by (auto simp: GetOrCreateStream_def)
next
  case (Some a)
  with assms(1) have "\<not> active (heap w ! a)" by simp
  with Some createNewStream_ok [OF assms(2), of u cfg "w\<lparr>streams := (streams w)(u := None)\<rparr>"]
  show ?thesis
    by (auto simp: GetOrCreateStream_def)
qed

lemma GetOrCreateStream_fail:
  assumes "\<not> (\<exists>a. streams w u = Some a \<and> active (heap w ! a))"
      and "\<not> (MkdirAll_ok env \<and> StdinPipe_ok env \<and> Start_ok env)"
  shows "\<exists>w' e. GetOrCreateStream u cfg env w = (w', Inl e) \<and> heap w' = heap w \<and>
           streams w' = (streams w)(u := None) \<and>
           os_log w' = os_log w @ EvMkdirAll (Join env (OutputDir cfg) u) #
                 (if MkdirAll_ok env then [EvCancelUnstarted (Join env (OutputDir cfg) u)] else []) \<and>
           filter (concerns sp) (os_log w') = filter (concerns sp) (os_log w)"
proof (cases "streams w u")
  case None
  then have "(streams w)(u := None) = streams w" by auto
  with None createNewStream_fail [OF assms(2), of u cfg w sp] show ?thesis
    by (auto simp: GetOrCreateStream_def)
next
  case (Some a)
  with assms(1) have "\<not> active (heap w ! a)" by simp
  with Some createNewStream_fail [OF assms(2), of u cfg "w\<lparr>streams := (streams w)(u := None)\<rparr>" sp]
  show ?thesis
    by (auto simp: GetOrCreateStream_def)
qed

lemma filter_teardown_events:
  "filter (concerns sp) (teardown_events a s e) = (if a = sp then teardown_events a s e else [])"
  by (simp add: teardown_events_def)

lemma teardown_events_active [simp]:
  "teardown_events sp (s\<lparr>active := b\<rparr>) e = teardown_events sp s e"
  by (simp add: teardown_events_def)

lemma teardown_events_not_Nil [simp]: "teardown_events sp s e \<noteq> []"
  by (simp add: teardown_events_def)

lemma Stop_inactive:
  assumes "\<not> active (heap w ! sp)"
  shows "Stop cfg exited sp w = w"
proof -
  have "(heap w ! sp)\<lparr>active := False\<rparr> = heap w ! sp" using assms by simp
  then have "(heap w)[sp := (heap w ! sp)\<lparr>active := False\<rparr>] = heap w" by simp
  with assms show ?thesis by (simp add: Stop_def Let_def)
qed

lemma Stop_active:
  assumes "active (heap w ! sp)" and "sp < length (heap w)"
  shows "Stop cfg exited sp w =
           w\<lparr>heap := (heap w)[sp := (heap w ! sp)\<lparr>active := False\<rparr>],
             os_log := os_log w @ teardown_events sp (heap w ! sp) exited\<rparr>"
  using assms by (simp add: Stop_def Let_def)

lemma Stop_clears_flag:
  assumes "sp < length (heap w)"
  shows "\<not> active (heap (Stop cfg exited sp w) ! sp)"
  using assms by (simp add: Stop_def Let_def)

lemma teardown_inv_NewManager: "teardown_inv NewManager"
  by (simp add: teardown_inv_def NewManager_def teardowns_of_def)

lemma teardown_inv_Stop:
  assumes "teardown_inv w" and "a < length (heap w)"
  shows "teardown_inv (Stop cfg exited a w)"
proof (cases "active (heap w ! a)")
  case False
  with assms(1) show ?thesis by (simp add: Stop_inactive)
next
  case True
  have a0: "teardowns_of a w = []"
    using assms True by (simp add: teardown_inv_def)
  show ?thesis
    unfolding teardown_inv_def
  proof (intro allI conjI impI)
    fix sp assume "sp < length (heap (Stop cfg exited a w))"
    then show "active (heap (Stop cfg exited a w) ! sp) \<Longrightarrow> teardowns_of sp (Stop cfg exited a w) = []"
      using assms True
      by (cases "sp = a")
         (auto simp: Stop_active teardown_inv_def teardowns_of_def filter_teardown_events)
  next
    fix sp assume "sp < length (heap (Stop cfg exited a w))"
    then show "teardowns_of sp (Stop cfg exited a w) = [] \<or>
          (\<exists>e. teardowns_of sp (Stop cfg exited a w) = teardown_events sp (heap (Stop cfg exited a w) ! sp) e)"
      using assms True a0
      by (cases "sp = a")
         (auto simp: Stop_active teardown_inv_def teardowns_of_def filter_teardown_events)
  next
    fix sp assume "length (heap (Stop cfg exited a w)) \<le> sp"
    then show "teardowns_of sp (Stop cfg exited a w) = []"
      using assms True
      by (auto simp: Stop_active teardown_inv_def teardowns_of_def filter_teardown_events)
  qed
qed

lemma teardown_inv_monitor_exit:
  assumes "teardown_inv w" and "a < length (heap w)"
  shows "teardown_inv (monitor_exit a w)"
  unfolding teardown_inv_def
proof (intro allI conjI impI)
  fix sp assume "sp < length (heap (monitor_exit a w))"
  then show "active (heap (monitor_exit a w) ! sp) \<Longrightarrow> teardowns_of sp (monitor_exit a w) = []"
    using assms
    by (cases "sp = a") (auto simp: monitor_exit_def teardown_inv_def teardowns_of_def)
next
  fix sp assume "sp < length (heap (monitor_exit a w))"
  then show "teardowns_of sp (monitor_exit a w) = [] \<or>
        (\<exists>e. teardowns_of sp (monitor_exit a w) = teardown_events sp (heap (monitor_exit a w) ! sp) e)"
    using assms
    by (cases "sp = a") (auto simp: monitor_exit_def teardown_inv_def teardowns_of_def)
next
  fix sp assume "length (heap (monitor_exit a w)) \<le> sp"
  then show "teardowns_of sp (monitor_exit a w) = []"
    using assms by (auto simp: monitor_exit_def teardown_inv_def teardowns_of_def)
qed

lemma teardown_inv_GetOrCreateStream:
  assumes "teardown_inv w"
  shows "teardown_inv (fst (GetOrCreateStream u cfg env w))"
proof (cases "\<exists>a. streams w u = Some a \<and> active (heap w ! a)")
  case True
  then show ?thesis using assms by (auto simp: GetOrCreateStream_active)
next
  case False
  show ?thesis
  proof (cases "MkdirAll_ok env \<and> StdinPipe_ok env \<and> Start_ok env")
    case True
    from GetOrCreateStream_create [OF False True, of cfg] obtain w' where
      w': "GetOrCreateStream u cfg env w = (w', Inr (length (heap w)))"
          "heap w' = heap w @ [\<lparr> username = u, cmd_Process = Some (length (heap w)),
                                  stdin = Some (length (heap w)), cancel = Some (length (heap w)),
                                  outputDir = Join env (OutputDir cfg) u, active = True \<rparr>]"
          "os_log w' = os_log w @ [EvMkdirAll (Join env (OutputDir cfg) u),
                                   EvStart (Join env (OutputDir cfg) u), EvGoMonitor (length (heap w))]"
      by blast
    have t: "teardowns_of sp w' = teardowns_of sp w" for sp
      by (simp add: teardowns_of_def w'(3))
    have "teardown_inv w'"
      unfolding teardown_inv_def t
    proof (intro allI conjI impI)
      fix sp assume "sp < length (heap w')" and "active (heap w' ! sp)"
      then show "teardowns_of sp w = []"
        using assms by (cases "sp < length (heap w)") (auto simp: w'(2) teardown_inv_def nth_append)
    next
      fix sp assume "sp < length (heap w')"
      then show "teardowns_of sp w = [] \<or> (\<exists>e. teardowns_of sp w = teardown_events sp (heap w' ! sp) e)"
        using assms by (cases "sp < length (heap w)") (auto simp: w'(2) teardown_inv_def nth_append)
    next
      fix sp assume "length (heap w') \<le> sp"
      then show "teardowns_of sp w = []"
        using assms by (auto simp: w'(2) teardown_inv_def)
    qed
    then show ?thesis by (simp add: w'(1))
  next
    case fail: False
    have "\<exists>w'. fst (GetOrCreateStream u cfg env w) = w' \<and> heap w' = heap w \<and>
            (\<forall>sp. teardowns_of sp w' = teardowns_of sp w)"
    proof -
      have "\<forall>sp. \<exists>w' e. GetOrCreateStream u cfg env w = (w', Inl e) \<and> heap w' = heap w \<and>
              teardowns_of sp w' = teardowns_of sp w"
        using GetOrCreateStream_fail [OF False fail, of cfg] unfolding teardowns_of_def by blast
      then show ?thesis by (metis fst_conv)
    qed
    then obtain w' where w': "fst (GetOrCreateStream u cfg env w) = w'" "heap w' = heap w"
        "\<And>sp. teardowns_of sp w' = teardowns_of sp w" by blast
    have "teardown_inv w'"
      using assms unfolding teardown_inv_def w'(2) w'(3) .
    then show ?thesis by (simp add: w'(1))
  qed
qed

lemma teardown_inv_do_op:
  assumes "teardown_inv w" and "op_valid x w"
  shows "teardown_inv (do_op cfg x w)"
  using assms
  by (cases x) (simp_all add: teardown_inv_Stop teardown_inv_monitor_exit teardown_inv_GetOrCreateStream)

lemma teardown_inv_run_ops:
  assumes "teardown_inv w" and "ops_valid cfg xs w"
  shows "teardown_inv (run_ops cfg xs w)"
  using assms by (induction xs arbitrary: w) (simp_all add: teardown_inv_do_op)

lemma run_ops_Stops_inactive:
  assumes "\<not> active (heap w ! sp)"
  shows "run_ops cfg (map (OpStop sp) es) w = w"
  using assms by (induction es) (simp_all add: Stop_inactive)

lemma goc_steps_GetOrCreateStream:
  "goc_step u cfg env (goc_step u cfg env (goc_step u cfg env (AtLoad, w))) =
     (Returned (snd (GetOrCreateStream u cfg env w)), fst (GetOrCreateStream u cfg env w))"
  by (auto simp: GetOrCreateStream_def split: option.splits prod.splits sum.splits)

subsection \<open>Claims about the stream manager\<close>

text \<open>
  C6 (as stated). When creation fails the error is returned and the state is unchanged.
  This is false of the code where the user had an inactive entry: the entry is deleted
  before \<^verbatim>\<open>createNewStream\<close> is called and is not put back. With an inactive stream
  registered for \<open>alice\<close> and a \<^verbatim>\<open>cmd.Start\<close> that fails, the call returns the
  error, the map is empty afterwards, and the directory has been created.
\<close>

theorem GetOrCreateStream_error_evicts_counterexample:
  "GetOrCreateStream ''alice'' DefaultConfig (example_env True True False)
     \<lparr> heap = [example_stream ''alice'' 0 False], streams = [''alice'' \<mapsto> 0], os_log = [] \<rparr> =
   (\<lparr> heap = [example_stream ''alice'' 0 False], streams = Map.empty,
      os_log = [EvMkdirAll ''streams/alice'', EvCancelUnstarted ''streams/alice''] \<rparr>,
    Inl StartFailed)"
  by (simp add: GetOrCreateStream_def createNewStream_def example_env_def example_stream_def
      DefaultConfig_def Let_def)

text \<open>
  C6 (amended). \<^verbatim>\<open>GetOrCreateStream\<close> for a user: when the map holds an entry whose
  flag is set, that same pointer is returned and nothing changes; otherwise, when the
  operating system answers without error, a new object is allocated (at an address that
  was not in the heap), it is active, the map sends the user to it in place of any
  inactive entry, and the directory has been made and the process started; otherwise the
  error is returned, no object is allocated, the map has no entry for the user and its
  other entries are as before. The map as a whole is unchanged on error exactly when the
  user had no entry; an inactive entry has been evicted. And on error the directory has
  been asked for; where it was made and the pipe or the start failed, the prepared
  command is cancelled and nothing else is done, so the directory stays.
\<close>

theorem GetOrCreateStream_cases:
  "(streams w u = Some a \<and> active (heap w ! a) \<longrightarrow>
      GetOrCreateStream u cfg env w = (w, Inr a)) \<and>
   (\<not> (\<exists>a. streams w u = Some a \<and> active (heap w ! a)) \<and>
    MkdirAll_ok env \<and> StdinPipe_ok env \<and> Start_ok env \<longrightarrow>
      (\<exists>w'. GetOrCreateStream u cfg env w = (w', Inr (length (heap w))) \<and>
            heap w' = heap w @ [\<lparr> username = u, cmd_Process = Some (length (heap w)),
                                   stdin = Some (length (heap w)), cancel = Some (length (heap w)),
                                   outputDir = Join env (OutputDir cfg) u, active = True \<rparr>] \<and>
            streams w' = (streams w)(u \<mapsto> length (heap w)) \<and>
            os_log w' = os_log w @ [EvMkdirAll (Join env (OutputDir cfg) u),
                                    EvStart (Join env (OutputDir cfg) u),
                                    EvGoMonitor (length (heap w))])) \<and>
   (\<not> (\<exists>a. streams w u = Some a \<and> active (heap w ! a)) \<and>
    \<not> (MkdirAll_ok env \<and> StdinPipe_ok env \<and> Start_ok env) \<longrightarrow>
      (\<exists>w' e. GetOrCreateStream u cfg env w = (w', Inl e) \<and>
              heap w' = heap w \<and> streams w' = (streams w)(u := None) \<and>
              os_log w' = os_log w @ EvMkdirAll (Join env (OutputDir cfg) u) #
                (if MkdirAll_ok env then [EvCancelUnstarted (Join env (OutputDir cfg) u)] else [])))"
proof (intro conjI impI)
  assume "streams w u = Some a \<and> active (heap w ! a)"
  then show "GetOrCreateStream u cfg env w = (w, Inr a)"
    by (simp add: GetOrCreateStream_active)
next
  assume h: "\<not> (\<exists>a. streams w u = Some a \<and> active (heap w ! a)) \<and>
             MkdirAll_ok env \<and> StdinPipe_ok env \<and> Start_ok env"
  then have 1: "\<not> (\<exists>a. streams w u = Some a \<and> active (heap w ! a))"
        and 2: "MkdirAll_ok env \<and> StdinPipe_ok env \<and> Start_ok env" by blast+
  from GetOrCreateStream_create [OF 1 2, of cfg]
  show "\<exists>w'. GetOrCreateStream u cfg env w = (w', Inr (length (heap w))) \<and>
            heap w' = heap w @ [\<lparr> username = u, cmd_Process = Some (length (heap w)),
                                   stdin = Some (length (heap w)), cancel = Some (length (heap w)),
                                   outputDir = Join env (OutputDir cfg) u, active = True \<rparr>] \<and>
            streams w' = (streams w)(u \<mapsto> length (heap w)) \<and>
            os_log w' = os_log w @ [EvMkdirAll (Join env (OutputDir cfg) u),
                                    EvStart (Join env (OutputDir cfg) u),
                                    EvGoMonitor (length (heap w))]"
    by blast
next
  assume h: "\<not> (\<exists>a. streams w u = Some a \<and> active (heap w ! a)) \<and>
             \<not> (MkdirAll_ok env \<and> StdinPipe_ok env \<and> Start_ok env)"
  then have 1: "\<not> (\<exists>a. streams w u = Some a \<and> active (heap w ! a))"
        and 2: "\<not> (MkdirAll_ok env \<and> StdinPipe_ok env \<and> Start_ok env)" by blast+
  from GetOrCreateStream_fail [OF 1 2, of cfg 0]
  show "\<exists>w' e. GetOrCreateStream u cfg env w = (w', Inl e) \<and>
              heap w' = heap w \<and> streams w' = (streams w)(u := None) \<and>
              os_log w' = os_log w @ EvMkdirAll (Join env (OutputDir cfg) u) #
                (if MkdirAll_ok env then [EvCancelUnstarted (Join env (OutputDir cfg) u)] else [])"
    by blast
qed

theorem GetOrCreateStream_cases_witness:
  "GetOrCreateStream ''alice'' DefaultConfig (example_env True True True)
     \<lparr> heap = [example_stream ''alice'' 0 True], streams = [''alice'' \<mapsto> 0], os_log = [] \<rparr> =
     (\<lparr> heap = [example_stream ''alice'' 0 True], streams = [''alice'' \<mapsto> 0], os_log = [] \<rparr>, Inr 0) \<and>
   snd (GetOrCreateStream ''alice'' DefaultConfig (example_env True True True)
     \<lparr> heap = [example_stream ''alice'' 0 False], streams = [''alice'' \<mapsto> 0], os_log = [] \<rparr>) = Inr 1 \<and>
   streams (fst (GetOrCreateStream ''alice'' DefaultConfig (example_env True True True)
     \<lparr> heap = [example_stream ''alice'' 0 False], streams = [''alice'' \<mapsto> 0], os_log = [] \<rparr>)) ''alice''
     = Some 1 \<and>
   heap (fst (GetOrCreateStream ''alice'' DefaultConfig (example_env True True True)
     \<lparr> heap = [example_stream ''alice'' 0 False], streams = [''alice'' \<mapsto> 0], os_log = [] \<rparr>))
     = [example_stream ''alice'' 0 False, example_stream ''alice'' 1 True] \<and>
   snd (GetOrCreateStream ''alice'' DefaultConfig (example_env True False True)
     \<lparr> heap = [example_stream ''alice'' 0 False], streams = [''alice'' \<mapsto> 0], os_log = [] \<rparr>)
     = Inl StdinPipeFailed \<and>
   streams (fst (GetOrCreateStream ''alice'' DefaultConfig (example_env True False True)
     \<lparr> heap = [example_stream ''alice'' 0 False], streams = [''alice'' \<mapsto> 0], os_log = [] \<rparr>)) ''alice''
     = None \<and>
   os_log (fst (GetOrCreateStream ''alice'' DefaultConfig (example_env True False True)
     \<lparr> heap = [example_stream ''alice'' 0 False], streams = [''alice'' \<mapsto> 0], os_log = [] \<rparr>))
     = [EvMkdirAll ''streams/alice'', EvCancelUnstarted ''streams/alice''] \<and>
   os_log (fst (GetOrCreateStream ''alice'' DefaultConfig (example_env False True True)
     \<lparr> heap = [example_stream ''alice'' 0 False], streams = [''alice'' \<mapsto> 0], os_log = [] \<rparr>))
     = [EvMkdirAll ''streams/alice'']"
  using GetOrCreateStream_cases [of
      "\<lparr> heap = [example_stream ''alice'' 0 True], streams = [''alice'' \<mapsto> 0], os_log = [] \<rparr>"
      "''alice''" 0 DefaultConfig "example_env True True True"]
    GetOrCreateStream_cases [of
      "\<lparr> heap = [example_stream ''alice'' 0 False], streams = [''alice'' \<mapsto> 0], os_log = [] \<rparr>"
      "''alice''" 0 DefaultConfig "example_env True True True"]
    GetOrCreateStream_cases [of
      "\<lparr> heap = [example_stream ''alice'' 0 False], streams = [''alice'' \<mapsto> 0], os_log = [] \<rparr>"
      "''alice''" 0 DefaultConfig "example_env True False True"]
    GetOrCreateStream_cases [of
      "\<lparr> heap = [example_stream ''alice'' 0 False], streams = [''alice'' \<mapsto> 0], os_log = [] \<rparr>"
      "''alice''" 0 DefaultConfig "example_env False True True"]
  by (simp add: GetOrCreateStream_def createNewStream_def example_env_def example_stream_def
      DefaultConfig_def Let_def)

text \<open>
  C7. A \<^verbatim>\<open>Stop\<close> call that finds the flag false changes nothing. A \<^verbatim>\<open>Stop\<close> call
  that finds it true clears it and performs the teardown: closing the input, cancelling
  the context, the wait with the kill when the process did not exit in time, and the
  scheduled removal of the directory. So of any sequence of \<^verbatim>\<open>Stop\<close> calls on one
  stream only the first can perform a teardown. And whatever valid operations goroutines
  have applied to a new manager, in any order (calls of \<^verbatim>\<open>GetOrCreateStream\<close>, calls of
  \<^verbatim>\<open>Stop\<close>, process exits seen by monitors), the teardown events of every stream are
  none, or those of one single \<^verbatim>\<open>Stop\<close> call.
\<close>

theorem Stop_teardown_once:
  "(\<not> active (heap w ! sp) \<longrightarrow> Stop cfg exited sp w = w) \<and>
   (active (heap w ! sp) \<and> sp < length (heap w) \<longrightarrow>
      Stop cfg exited sp w =
        w\<lparr>heap := (heap w)[sp := (heap w ! sp)\<lparr>active := False\<rparr>],
          os_log := os_log w @ teardown_events sp (heap w ! sp) exited\<rparr>) \<and>
   (sp < length (heap w) \<longrightarrow>
      run_ops cfg (OpStop sp exited # map (OpStop sp) es) w = Stop cfg exited sp w) \<and>
   (ops_valid cfg ops NewManager \<longrightarrow>
      teardowns_of sp (run_ops cfg ops NewManager) = [] \<or>
      (\<exists>e. teardowns_of sp (run_ops cfg ops NewManager) =
             teardown_events sp (heap (run_ops cfg ops NewManager) ! sp) e))"
proof (intro conjI impI)
  assume "\<not> active (heap w ! sp)"
  then show "Stop cfg exited sp w = w" by (rule Stop_inactive)
next
  assume "active (heap w ! sp) \<and> sp < length (heap w)"
  then show "Stop cfg exited sp w =
        w\<lparr>heap := (heap w)[sp := (heap w ! sp)\<lparr>active := False\<rparr>],
          os_log := os_log w @ teardown_events sp (heap w ! sp) exited\<rparr>"
    by (simp add: Stop_active)
next
  assume "sp < length (heap w)"
  then have "\<not> active (heap (Stop cfg exited sp w) ! sp)" by (rule Stop_clears_flag)
  then show "run_ops cfg (OpStop sp exited # map (OpStop sp) es) w = Stop cfg exited sp w"
    by (simp add: run_ops_Stops_inactive)
next
  assume "ops_valid cfg ops NewManager"
  with teardown_inv_NewManager have "teardown_inv (run_ops cfg ops NewManager)"
    by (rule teardown_inv_run_ops)
  then show "teardowns_of sp (run_ops cfg ops NewManager) = [] \<or>
      (\<exists>e. teardowns_of sp (run_ops cfg ops NewManager) =
             teardown_events sp (heap (run_ops cfg ops NewManager) ! sp) e)"
    unfolding teardown_inv_def by (metis not_le)
qed

theorem Stop_teardown_once_witness:
  "Stop DefaultConfig True 0
     \<lparr> heap = [example_stream ''alice'' 0 False], streams = Map.empty, os_log = [] \<rparr> =
     \<lparr> heap = [example_stream ''alice'' 0 False], streams = Map.empty, os_log = [] \<rparr> \<and>
   Stop DefaultConfig False 0
     \<lparr> heap = [example_stream ''alice'' 0 True], streams = [''alice'' \<mapsto> 0], os_log = [] \<rparr> =
     \<lparr> heap = [example_stream ''alice'' 0 False], streams = [''alice'' \<mapsto> 0],
       os_log = [EvCloseStdin 0, EvCancel 0, EvWait 0, EvKill 0,
                 EvScheduleRemoveAll 0 ''streams/alice''] \<rparr> \<and>
   run_ops DefaultConfig [OpStop 0 True, OpStop 0 False, OpStop 0 True]
     \<lparr> heap = [example_stream ''alice'' 0 True], streams = [''alice'' \<mapsto> 0], os_log = [] \<rparr> =
     \<lparr> heap = [example_stream ''alice'' 0 False], streams = [''alice'' \<mapsto> 0],
       os_log = [EvCloseStdin 0, EvCancel 0, EvWait 0,
                 EvScheduleRemoveAll 0 ''streams/alice''] \<rparr> \<and>
   ops_valid DefaultConfig
     [OpGetOrCreate ''alice'' (example_env True True True), OpStop 0 False, OpStop 0 True,
      OpMonitorExit 0, OpStop 0 False] NewManager \<and>
   teardowns_of 0 (run_ops DefaultConfig
     [OpGetOrCreate ''alice'' (example_env True True True), OpStop 0 False, OpStop 0 True,
      OpMonitorExit 0, OpStop 0 False] NewManager) =
     [EvCloseStdin 0, EvCancel 0, EvWait 0, EvKill 0, EvScheduleRemoveAll 0 ''streams/alice'']"
  using Stop_teardown_once [of
      "\<lparr> heap = [example_stream ''alice'' 0 False], streams = Map.empty, os_log = [] \<rparr>"
      0 DefaultConfig True "[]" "[]"]
    Stop_teardown_once [of
      "\<lparr> heap = [example_stream ''alice'' 0 True], streams = [''alice'' \<mapsto> 0], os_log = [] \<rparr>"
      0 DefaultConfig False "[]" "[]"]
    Stop_teardown_once [of
      "\<lparr> heap = [example_stream ''alice'' 0 True], streams = [''alice'' \<mapsto> 0], os_log = [] \<rparr>"
      0 DefaultConfig True "[False, True]"
      "[OpGetOrCreate ''alice'' (example_env True True True), OpStop 0 False, OpStop 0 True,
        OpMonitorExit 0, OpStop 0 False]"]
  by (simp add: Stop_def GetOrCreateStream_def createNewStream_def monitor_exit_def teardowns_of_def
      teardown_events_def example_env_def example_stream_def DefaultConfig_def NewManager_def Let_def)

text \<open>
  C9. Two \<^verbatim>\<open>GetOrCreateStream\<close> calls for one user on an empty manager, interleaved
  so that both have done their \<^verbatim>\<open>Load\<close> before either does its \<^verbatim>\<open>Store\<close>: both
  find no entry, both call \<^verbatim>\<open>createNewStream\<close>, two processes are started on the same
  output directory, and the second \<^verbatim>\<open>Store\<close> overwrites the first. The first caller
  holds a stream that the map does not know. The schedule alternates the two calls.
\<close>

theorem concurrent_GetOrCreateStream_spawns_twice:
  "run_schedule ''alice'' DefaultConfig (example_env True True True)
     [True, False, True, False, True, False] (AtLoad, AtLoad, NewManager) =
   (Returned (Inr 0), Returned (Inr 1),
    \<lparr> heap = [example_stream ''alice'' 0 True, example_stream ''alice'' 1 True],
      streams = [''alice'' \<mapsto> 1],
      os_log = [EvMkdirAll ''streams/alice'', EvStart ''streams/alice'', EvGoMonitor 0,
                EvMkdirAll ''streams/alice'', EvStart ''streams/alice'', EvGoMonitor 1] \<rparr>)"
  by (simp add: createNewStream_def example_env_def example_stream_def
      DefaultConfig_def NewManager_def Let_def)

end
